theory Spec2Isabelle
  imports Main "HOL-Library.Multiset"
begin

section \<open>Strings, runes and failures\<close>

text \<open>
  A Go string is a sequence of bytes: it is modelled as \<^typ>\<open>string\<close>, a list of
  8-bit characters; \<open>len(s)\<close> is \<^const>\<open>length\<close> and \<open>s[i:]\<close> is \<^const>\<open>drop\<close>.
  A rune (Go's \<open>int32\<close> code point) only takes values between 0 and 0x10FFFF here, so
  it is a natural number. Go's \<open>int\<close> indices are never negative in this program
  except for the \<open>-1\<close> "not found" results, which are modelled as \<open>None\<close>.
\<close>

type_synonym rune = nat

abbreviation byte_val :: "char \<Rightarrow> nat" where
  "byte_val c \<equiv> of_char c"

text \<open>\<open>utf8.RuneError\<close>, the replacement character U+FFFD.\<close>

definition RuneError :: rune where
  "RuneError = 0xFFFD"

text \<open>
  Everything that stops a call without its normal result: the error values the
  program builds, and the run-time panics of Go's slice and index expressions.
\<close>

datatype failure =
    InvalidRune nat          \<comment> \<open>\<open>fmt.Errorf("invalid rune at position %d", i)\<close>\<close>
  | InvalidHtml              \<comment> \<open>\<open>errors.New("invalid html")\<close>\<close>
  | GetFailed                \<comment> \<open>the error an \<open>HTTPGetter\<close> returns\<close>
  | PanicSliceBounds         \<comment> \<open>panic: slice bounds out of range\<close>
  | PanicIndex               \<comment> \<open>panic: index out of range\<close>

text \<open>\<open>s[lo:hi]\<close>: Go panics unless \<open>lo \<le> hi \<le> len(s)\<close>.\<close>

definition slice :: "string \<Rightarrow> nat \<Rightarrow> nat \<Rightarrow> failure + string" where
  "slice s lo hi =
     (if lo \<le> hi \<and> hi \<le> length s then Inr (take (hi - lo) (drop lo s))
      else Inl PanicSliceBounds)"

text \<open>\<open>s[i]\<close>: Go panics unless \<open>i < len(s)\<close>.\<close>

definition index :: "string \<Rightarrow> nat \<Rightarrow> failure + char" where
  "index s i = (if i < length s then Inr (s ! i) else Inl PanicIndex)"

subsection \<open>The standard library's UTF-8 decoder\<close>

text \<open>
  \<open>utf8.DecodeRuneInString\<close> of Go's standard library, after its source: the first
  byte selects the width and the range accepted for the second byte; an empty string
  gives \<open>(RuneError, 0)\<close> and every malformed or truncated encoding gives
  \<open>(RuneError, 1)\<close>. A well-formed encoding of U+FFFD itself gives \<open>(RuneError, 3)\<close>.
\<close>

definition seq_size :: "nat \<Rightarrow> nat" where
  "seq_size s0 = (if s0 < 0xE0 then 2 else if s0 < 0xF0 then 3 else 4)"

definition accept_lo :: "nat \<Rightarrow> nat" where
  "accept_lo s0 = (if s0 = 0xE0 then 0xA0 else if s0 = 0xF0 then 0x90 else 0x80)"

definition accept_hi :: "nat \<Rightarrow> nat" where
  "accept_hi s0 = (if s0 = 0xED then 0x9F else if s0 = 0xF4 then 0x8F else 0xBF)"

definition DecodeRuneInString :: "string \<Rightarrow> rune \<times> nat" where
  "DecodeRuneInString s =
     (if length s < 1 then (RuneError, 0)
      else let s0 = byte_val (s ! 0) in
        if s0 < 0x80 then (s0, 1)
        else if s0 < 0xC2 \<or> 0xF4 < s0 then (RuneError, 1)
        else if length s < seq_size s0 then (RuneError, 1)
        else let s1 = byte_val (s ! 1) in
          if s1 < accept_lo s0 \<or> accept_hi s0 < s1 then (RuneError, 1)
          else if seq_size s0 \<le> 2 then ((s0 mod 32) * 64 + s1 mod 64, 2)
          else let s2 = byte_val (s ! 2) in
            if s2 < 0x80 \<or> 0xBF < s2 then (RuneError, 1)
            else if seq_size s0 \<le> 3
              then ((s0 mod 16) * 4096 + (s1 mod 64) * 64 + s2 mod 64, 3)
            else let s3 = byte_val (s ! 3) in
              if s3 < 0x80 \<or> 0xBF < s3 then (RuneError, 1)
              else ((s0 mod 8) * 262144 + (s1 mod 64) * 4096 + (s2 mod 64) * 64
                      + s3 mod 64, 4))"

text \<open>
  \<open>utf8.DecodeLastRune\<close>: an ASCII last byte is its own rune; otherwise step back to
  the nearest byte that can start a rune, at most \<open>UTFMax = 4\<close> bytes from the end,
  decode from there and accept the result only if it ends exactly at the end.
\<close>

definition RuneStart :: "nat \<Rightarrow> bool" where
  "RuneStart b = (\<not> (0x80 \<le> b \<and> b < 0xC0))"

function back_start :: "string \<Rightarrow> int \<Rightarrow> int \<Rightarrow> int" where
  "back_start p start lim =
     (if lim \<le> start
      then (if RuneStart (byte_val (p ! nat start)) then start
            else back_start p (start - 1) lim)
      else start)"
  by pat_completeness auto
termination
  by (relation "measure (\<lambda>(p, start, lim). nat (start - lim + 1))") auto

declare back_start.simps [simp del]

definition DecodeLastRune :: "string \<Rightarrow> rune \<times> nat" where
  "DecodeLastRune p =
     (let end = int (length p) in
      if end = 0 then (RuneError, 0)
      else let r = byte_val (p ! nat (end - 1)) in
        if r < 0x80 then (r, 1)
        else let lim = max 0 (end - 4);
                 start = max 0 (back_start p (end - 2) lim);
                 (r, size) = DecodeRuneInString (drop (nat start) p)
             in if start + int size \<noteq> end then (RuneError, 1) else (r, size))"

subsection \<open>Byte-wise string order and binary search\<close>

text \<open>Go compares strings byte by byte; \<open>str_less a b\<close> is \<open>a < b\<close>.\<close>

fun str_less :: "string \<Rightarrow> string \<Rightarrow> bool" where
  "str_less [] [] = False"
| "str_less [] (y # ys) = True"
| "str_less (x # xs) [] = False"
| "str_less (x # xs) (y # ys) =
     (byte_val x < byte_val y \<or> (x = y \<and> str_less xs ys))"

text \<open>
  \<open>sort.Search(n, f)\<close>: the loop \<open>for i < j { h := (i+j)/2; if !f(h) { i = h+1 } else
  { j = h } }\<close>, and \<open>sort.SearchStrings(a, x) = Search(len(a), a[i] >= x)\<close>.
\<close>

function Search_loop :: "(nat \<Rightarrow> bool) \<Rightarrow> nat \<Rightarrow> nat \<Rightarrow> nat" where
  "Search_loop f i j =
     (if i < j
      then (let h = (i + j) div 2
            in if \<not> f h then Search_loop f (h + 1) j else Search_loop f i h)
      else i)"
  by pat_completeness auto
termination
  by (relation "measure (\<lambda>(f, i, j). j - i)") auto

declare Search_loop.simps [simp del]

definition Search :: "nat \<Rightarrow> (nat \<Rightarrow> bool) \<Rightarrow> nat" where
  "Search n f = Search_loop f 0 n"

definition SearchStrings :: "string list \<Rightarrow> string \<Rightarrow> nat" where
  "SearchStrings a x = Search (length a) (\<lambda>i. \<not> str_less (a ! i) x)"

text \<open>\<open>strings.Index(s, ")")\<close> for a one-byte pattern; \<open>None\<close> is Go's \<open>-1\<close>.\<close>

fun strings_Index :: "string \<Rightarrow> char \<Rightarrow> nat option" where
  "strings_Index [] c = None"
| "strings_Index (x # xs) c =
     (if x = c then Some 0
      else (case strings_Index xs c of None \<Rightarrow> None | Some k \<Rightarrow> Some (Suc k)))"

section \<open>The emotion extractor\<close>

definition supportedEmotions :: "string list" where
  "supportedEmotions =
     [''atlassian'', ''bitbucket'', ''boom'', ''crucible'', ''fry'', ''ghost'', ''heart'']"

text \<open>
  \<open>emotion\<close>, as written: the variable \<open>i\<close> first holds the position of the closing
  parenthesis and is then overwritten with the result of the binary search, so the
  returned width is the vocabulary index plus one.
\<close>

definition emotion :: "string \<Rightarrow> failure + (string \<times> nat)" where
  "emotion s =
     (case strings_Index s (CHR '')'') of
        None \<Rightarrow> Inr ([], 0)
      | Some i \<Rightarrow>
          (case slice s 1 i of
             Inl err \<Rightarrow> Inl err
           | Inr e \<Rightarrow>
               (let i = SearchStrings supportedEmotions e
                in if \<not> (i < length supportedEmotions \<and> supportedEmotions ! i = e)
                   then Inr ([], 0)
                   else Inr (e, i + 1))))"

section \<open>The library functions the extractors consult\<close>

text \<open>
  The Unicode tables (\<open>unicode.IsLetter\<close>, \<open>unicode.IsDigit\<close>, \<open>unicode.IsSpace\<close>), the
  non-ASCII branch of \<open>strings.ToLower\<close> and the verdict of \<open>url.Parse\<close> belong to Go's
  standard library, not to this package: the model takes them as parameters.
\<close>

record stdlib =
  IsLetter :: "rune \<Rightarrow> bool"
  IsDigit :: "rune \<Rightarrow> bool"
  IsSpace :: "rune \<Rightarrow> bool"
  ToLowerNonASCII :: "string \<Rightarrow> string"
  url_Parse_ok :: "string \<Rightarrow> bool"

definition ascii_lower :: "char \<Rightarrow> char" where
  "ascii_lower c =
     (if 0x41 \<le> byte_val c \<and> byte_val c \<le> 0x5A then char_of (byte_val c + 0x20) else c)"

text \<open>\<open>strings.ToLower\<close>: ASCII-only strings are mapped byte by byte.\<close>

definition ToLower :: "stdlib \<Rightarrow> string \<Rightarrow> string" where
  "ToLower lib s =
     (if list_all (\<lambda>c. byte_val c < 0x80) s then map ascii_lower s
      else ToLowerNonASCII lib s)"

lemma DecodeRuneInString_size:
  "s \<noteq> [] \<Longrightarrow> 0 < snd (DecodeRuneInString s) \<and> snd (DecodeRuneInString s) \<le> length s"
proof -
  assume ne: "s \<noteq> []"
  let ?n = "snd (DecodeRuneInString s)"
  have "?n = 1 \<or> (?n = seq_size (byte_val (s ! 0)) \<and> seq_size (byte_val (s ! 0)) \<le> length s)"
    using ne by (simp add: DecodeRuneInString_def Let_def) (simp add: seq_size_def)
  moreover have "1 \<le> length s" using ne by (cases s) simp_all
  moreover have "0 < seq_size (byte_val (s ! 0))" by (simp add: seq_size_def)
  ultimately show ?thesis by auto
qed

section \<open>The mention extractor\<close>

function mention_loop :: "stdlib \<Rightarrow> string \<Rightarrow> nat \<Rightarrow> nat" where
  "mention_loop lib s i =
     (if i < length s
      then (let (r, n) = DecodeRuneInString (drop i s)
            in if IsLetter lib r \<or> IsDigit lib r \<or> r = 0x5F
               then mention_loop lib s (i + n)
               else i)
      else i)"
  by pat_completeness auto
termination
proof (relation "measure (\<lambda>(lib, s, i). length s - i)", goal_cases)
  case 1
  show ?case by simp
next
  case (2 lib s i x r n)
  have "drop i s \<noteq> []" using 2(1) by simp
  from DecodeRuneInString_size [OF this] 2(2) 2(3) have "0 < n"
    by (metis snd_conv)
  with 2(1) show ?case by simp
qed

declare mention_loop.simps [simp del]

definition mention :: "stdlib \<Rightarrow> string \<Rightarrow> failure + (string \<times> nat)" where
  "mention lib s =
     (let i = mention_loop lib s 1
      in if i = 1 then Inr ([], 0)
         else (case slice s 1 i of Inl err \<Rightarrow> Inl err | Inr m \<Rightarrow> Inr (m, i)))"

section \<open>The link extractor\<close>

function spaceIndex_loop :: "stdlib \<Rightarrow> string \<Rightarrow> nat \<Rightarrow> nat option" where
  "spaceIndex_loop lib s i =
     (if i < length s
      then (let (r, n) = DecodeRuneInString (drop i s)
            in if IsSpace lib r then Some i else spaceIndex_loop lib s (i + n))
      else None)"
  by pat_completeness auto
termination
proof (relation "measure (\<lambda>(lib, s, i). length s - i)", goal_cases)
  case 1
  show ?case by simp
next
  case (2 lib s i x r n)
  have "drop i s \<noteq> []" using 2(1) by simp
  from DecodeRuneInString_size [OF this] 2(2) 2(3) have "0 < n"
    by (metis snd_conv)
  with 2(1) show ?case by simp
qed

declare spaceIndex_loop.simps [simp del]

definition spaceIndex :: "stdlib \<Rightarrow> string \<Rightarrow> nat option" where
  "spaceIndex lib s = spaceIndex_loop lib s 0"

definition link :: "stdlib \<Rightarrow> string \<Rightarrow> failure + (string \<times> nat)" where
  "link lib s =
     (if length s < 7 then Inr ([], 0)
      else
        (case slice s 0 4 of
           Inl err \<Rightarrow> Inl err
         | Inr s4 \<Rightarrow>
        (case index s 4 of
           Inl err \<Rightarrow> Inl err
         | Inr c4 \<Rightarrow>
        (let proto = ToLower lib s4 @ (if c4 = CHR ''s'' \<or> c4 = CHR ''S'' then ''s'' else [])
         in if proto \<noteq> ''http'' \<and> proto \<noteq> ''https'' then Inr ([], 0)
            else
        (let pl = length proto
         in (case slice s pl (pl + 3) of
               Inl err \<Rightarrow> Inl err
             | Inr sep \<Rightarrow>
                 if sep \<noteq> ''://'' then Inr ([], 0)
                 else
        (let end = (case spaceIndex lib s of None \<Rightarrow> length s | Some k \<Rightarrow> k)
         in (case slice s 0 end of
               Inl err \<Rightarrow> Inl err
             | Inr l \<Rightarrow>
                 if \<not> url_Parse_ok lib l then Inr ([], 0)
                 else Inr (l, length l)))))))))"

section \<open>The scanner\<close>

text \<open>The three lists \<open>Parse\<close> appends to while it scans.\<close>

record found =
  mentions :: "string list"
  emotions :: "string list"
  urls :: "string list"

text \<open>
  One iteration of the loop of \<open>Parse\<close> at position \<open>i < len(msg)\<close>: the position
  and lists after it, or the failure that ends the call.
\<close>

definition step :: "stdlib \<Rightarrow> string \<Rightarrow> nat \<Rightarrow> found \<Rightarrow> failure + (nat \<times> found)" where
  "step lib msg i a =
     (let s = drop i msg; (r, size) = DecodeRuneInString s
      in if r = RuneError then Inl (InvalidRune i)
         else if r = 0x28 then
           (case emotion s of
              Inl err \<Rightarrow> Inl err
            | Inr (e, n) \<Rightarrow>
                if e \<noteq> [] then Inr (i + n, a\<lparr>emotions := emotions a @ [e]\<rparr>)
                else Inr (i + size, a))
         else if r = 0x40 then
           (case mention lib s of
              Inl err \<Rightarrow> Inl err
            | Inr (m, n) \<Rightarrow>
                if m \<noteq> [] then Inr (i + n, a\<lparr>mentions := mentions a @ [m]\<rparr>)
                else Inr (i + size, a))
         else if r = 0x48 \<or> r = 0x68 then
           (let start =
                  (if 0 < i
                   then (let (r', w) = DecodeLastRune (take i msg)
                         in \<not> IsLetter lib r' \<and> \<not> IsDigit lib r')
                   else True)
            in if start then
                 (case link lib s of
                    Inl err \<Rightarrow> Inl err
                  | Inr (url, n) \<Rightarrow>
                      if url \<noteq> [] then Inr (i + n, a\<lparr>urls := urls a @ [url]\<rparr>)
                      else Inr (i + size, a))
               else Inr (i + size, a))
         else Inr (i + size, a))"

lemma mention_loop_ge: "i \<le> mention_loop lib s i"
proof (induction lib s i rule: mention_loop.induct)
  case (1 lib s i)
  show ?case
  proof (cases "i < length s")
    case False
    then show ?thesis by (simp add: mention_loop.simps)
  next
    case True
    obtain r n where d: "DecodeRuneInString (drop i s) = (r, n)" by (cases "DecodeRuneInString (drop i s)")
    show ?thesis
    proof (cases "IsLetter lib r \<or> IsDigit lib r \<or> r = 0x5F")
      case False
      with True d show ?thesis by (simp add: mention_loop.simps [of lib s i])
    next
      case ok: True
      from "1.IH" [OF True d [symmetric] refl ok] have "i + n \<le> mention_loop lib s (i + n)" .
      with True d ok show ?thesis by (simp add: mention_loop.simps [of lib s i])
    qed
  qed
qed

lemma emotion_width: "emotion s = Inr (e, n) \<Longrightarrow> e \<noteq> [] \<Longrightarrow> 0 < n"
  by (auto simp: emotion_def Let_def split: option.splits sum.splits if_splits)

lemma mention_width: "mention lib s = Inr (m, n) \<Longrightarrow> m \<noteq> [] \<Longrightarrow> 0 < n"
  using mention_loop_ge [of 1 lib s]
  by (auto simp: mention_def Let_def split: sum.splits if_splits)

lemma link_width: "link lib s = Inr (l, n) \<Longrightarrow> l \<noteq> [] \<Longrightarrow> 0 < n"
  by (auto simp: link_def Let_def split: sum.splits if_splits)

lemma step_progress:
  assumes "i < length msg" and "step lib msg i a = Inr (i', a')"
  shows "i < i'"
proof -
  obtain r size where d: "DecodeRuneInString (drop i msg) = (r, size)"
    by (cases "DecodeRuneInString (drop i msg)")
  have "drop i msg \<noteq> []" using assms(1) by simp
  from DecodeRuneInString_size [OF this] d have sz: "0 < size" by simp
  show ?thesis
    using assms(2) sz emotion_width [of "drop i msg"] mention_width [of lib "drop i msg"]
      link_width [of lib "drop i msg"]
    by (auto simp: step_def d Let_def split: sum.splits if_splits prod.splits)
qed

function Parse_loop :: "stdlib \<Rightarrow> string \<Rightarrow> nat \<Rightarrow> found \<Rightarrow> failure + found" where
  "Parse_loop lib msg i a =
     (if i < length msg
      then (case step lib msg i a of
              Inl err \<Rightarrow> Inl err
            | Inr (i', a') \<Rightarrow> Parse_loop lib msg i' a')
      else Inr a)"
  by pat_completeness auto
termination
proof (relation "measure (\<lambda>(lib, msg, i, a). length msg - i)", goal_cases)
  case 1
  show ?case by simp
next
  case (2 lib msg i a x i' a')
  from step_progress [of i msg lib a i' a'] 2 have "i < i'" by simp
  with 2(1) show ?case by simp
qed

declare Parse_loop.simps [simp del]

section \<open>Page titles and link enrichment\<close>

text \<open>
  The body of a response is read through \<open>html.NewTokenizer\<close> of
  \<open>golang.org/x/net/html\<close>, a library outside this package. The model takes the
  tokens it yields before its first \<open>ErrorToken\<close>: \<open>Next\<close> at the end of the list
  is \<open>ErrorToken\<close> (end of input or a read error), and stays so. A tag token carries
  what \<open>TagName\<close> returns and a text token what \<open>Text\<close> returns.
\<close>

datatype token =
    TextToken string
  | StartTagToken string
  | EndTagToken string
  | SelfClosingTagToken string
  | CommentToken string
  | DoctypeToken string

text \<open>
  The \<open>for\<close> loop of \<open>pagetTitle\<close>, with its variable \<open>head\<close>. The result is Go's
  pair \<open>(string, error)\<close>; \<open>None\<close> is the \<open>nil\<close> error. At a \<open>title\<close> start tag the
  loop calls \<open>Next\<close> once more: a text token is the title, any other token is
  consumed and the loop goes on after it.
\<close>

fun title_loop :: "bool \<Rightarrow> token list \<Rightarrow> string \<times> failure option" where
  "title_loop head [] = ([], Some InvalidHtml)"
| "title_loop head (StartTagToken name # ts) =
     (if name = ''head'' then title_loop True ts
      else if name = ''title'' then
        (if True \<or> head then
           (case ts of
              [] \<Rightarrow> title_loop head []
            | TextToken t # ts' \<Rightarrow> (t, None)
            | tok # ts' \<Rightarrow> title_loop head ts')
         else title_loop head ts)
      else if name = ''body'' then ([], None)
      else title_loop head ts)"
| "title_loop head (EndTagToken name # ts) =
     (if name = ''head'' then ([], None) else title_loop head ts)"
| "title_loop head (tok # ts) = title_loop head ts"

text \<open>
  A parser holds its \<open>HTTPGetter\<close>. \<open>hg p url\<close> is the outcome of \<open>p.hg.Get(url)\<close>: the
  getter's error, or the token stream of the response body.
\<close>

record Parser =
  hg :: "string \<Rightarrow> failure + token list"

definition pagetTitle :: "Parser \<Rightarrow> string \<Rightarrow> string \<times> failure option" where
  "pagetTitle p url =
     (case hg p url of
        Inl err \<Rightarrow> ([], Some err)
      | Inr body \<Rightarrow> title_loop False body)"

record Link =
  URL :: string
  Title :: string

record MsgInfo =
  Mentions :: "string list"
  Emotions :: "string list"
  Links :: "Link list"

text \<open>\<open>t, _ := p.pagetTitle(u); Link{URL: u, Title: t}\<close>: the error is dropped.\<close>

definition fetchLink :: "Parser \<Rightarrow> string \<Rightarrow> Link" where
  "fetchLink p u = \<lparr>URL = u, Title = fst (pagetTitle p u)\<rparr>"

text \<open>
  With two or more URLs every fetch runs in a goroutine of its own and the links
  are received from the channel in the order the goroutines finish. That order is
  the scheduler's: the model takes it as the list \<open>sched\<close>, whose next number picks,
  among the links still pending, the one received next (pending links in the order
  their goroutines were started; an exhausted \<open>sched\<close> picks the first).
\<close>

function receive :: "nat list \<Rightarrow> 'a list \<Rightarrow> 'a list" where
  "receive sched [] = []"
| "receive sched (x # xs) =
     (let k = (case sched of [] \<Rightarrow> 0 | c # cs \<Rightarrow> c mod length (x # xs))
      in (x # xs) ! k # receive (tl sched) (take k (x # xs) @ drop (Suc k) (x # xs)))"
  by pat_completeness auto
termination
proof (relation "measure (\<lambda>(sched, pending). length pending)", goal_cases)
  case 1
  show ?case by simp
next
  case (2 sched x xs k)
  have "k < length (x # xs)"
    unfolding 2 by (cases sched) simp_all
  then show ?case by simp
qed

declare receive.simps(2) [simp del]

definition urlsToLinks :: "Parser \<Rightarrow> nat list \<Rightarrow> string list \<Rightarrow> Link list" where
  "urlsToLinks p sched us =
     (case us of
        [] \<Rightarrow> []
      | [u] \<Rightarrow> [fetchLink p u]
      | u # v # ws \<Rightarrow> receive sched (map (fetchLink p) us))"

definition Parse :: "stdlib \<Rightarrow> Parser \<Rightarrow> nat list \<Rightarrow> string \<Rightarrow> failure + MsgInfo" where
  "Parse lib p sched msg =
     (case Parse_loop lib msg 0 \<lparr>mentions = [], emotions = [], urls = []\<rparr> of
        Inl err \<Rightarrow> Inl err
      | Inr a \<Rightarrow>
          Inr \<lparr>Mentions = mentions a, Emotions = emotions a,
               Links = urlsToLinks p sched (urls a)\<rparr>)"

section \<open>Serialization\<close>

text \<open>
  \<open>ParseJSON\<close> hands the result to \<open>json.Marshal\<close>, and the package's test reads it back
  with \<open>json.Unmarshal\<close>; both belong to Go's \<open>encoding/json\<close>. They are modelled on
  the JSON value that the text denotes, by what their documentation states: struct
  fields are written in declaration order under the names of their tags; a field tagged
  \<open>omitempty\<close> is left out when its slice has length zero; and "string values encode as
  JSON strings coerced to valid UTF-8, replacing invalid bytes with the Unicode
  replacement rune". Escaping inside the text is not modelled: it does not change the
  value denoted. \<open>json.Marshal\<close> has no error to report on a \<open>MsgInfo\<close> (strings and
  slices only), so the second error branch of \<open>ParseJSON\<close> is never taken.
\<close>

datatype json =
    JNull
  | JString string
  | JArray "json list"
  | JObject "(string \<times> json) list"

definition replacement :: string where
  "replacement = [CHR 0xEF, CHR 0xBF, CHR 0xBD]"

function ToValidUTF8 :: "string \<Rightarrow> string" where
  "ToValidUTF8 s =
     (if s = [] then []
      else (let (r, n) = DecodeRuneInString s
            in if r = RuneError \<and> n = 1 then replacement @ ToValidUTF8 (drop 1 s)
               else take n s @ ToValidUTF8 (drop n s)))"
  by pat_completeness auto
termination
proof (relation "measure length", goal_cases)
  case 1
  show ?case by simp
next
  case (2 s x r n)
  then show ?case by simp
next
  case (3 s x r n)
  from DecodeRuneInString_size [OF 3(1)] 3(2) 3(3) have "0 < n"
    by (metis snd_conv)
  with 3(1) show ?case by simp
qed

declare ToValidUTF8.simps [simp del]

definition marshal_string :: "string \<Rightarrow> json" where
  "marshal_string s = JString (ToValidUTF8 s)"

definition marshal_Link :: "Link \<Rightarrow> json" where
  "marshal_Link l = JObject [(''url'', marshal_string (URL l)), (''title'', marshal_string (Title l))]"

definition Marshal :: "MsgInfo \<Rightarrow> json" where
  "Marshal mi =
     JObject
       ((if length (Mentions mi) = 0 then []
         else [(''mentions'', JArray (map marshal_string (Mentions mi)))])
        @ (if length (Emotions mi) = 0 then []
           else [(''emotions'', JArray (map marshal_string (Emotions mi)))])
        @ (if length (Links mi) = 0 then []
           else [(''links'', JArray (map marshal_Link (Links mi)))]))"

definition ParseJSON :: "stdlib \<Rightarrow> Parser \<Rightarrow> nat list \<Rightarrow> string \<Rightarrow> failure + json" where
  "ParseJSON lib p sched msg =
     (case Parse lib p sched msg of
        Inl err \<Rightarrow> Inl err
      | Inr mi \<Rightarrow> Inr (Marshal mi))"

text \<open>
  \<open>json.Unmarshal\<close> into a zero \<open>MsgInfo\<close>: a key that is absent leaves the field \<open>nil\<close>,
  \<open>null\<close> leaves a field as it is, and a value of the wrong JSON type is an error
  (\<open>None\<close>). Keys are looked up by their exact names, the first of a repeated key
  counting; \<open>encoding/json\<close> also accepts a key that differs in case and lets the last
  of a repeated key count, which makes no difference on what \<open>Marshal\<close> writes: the
  three exact names, each at most once.
\<close>

fun unmarshal_string :: "json \<Rightarrow> string option" where
  "unmarshal_string (JString s) = Some s"
| "unmarshal_string JNull = Some []"
| "unmarshal_string j = None"

fun unmarshal_list :: "(json \<Rightarrow> 'a option) \<Rightarrow> json \<Rightarrow> 'a list option" where
  "unmarshal_list f (JArray js) = those (map f js)"
| "unmarshal_list f JNull = Some []"
| "unmarshal_list f j = None"

definition field :: "(json \<Rightarrow> 'a option) \<Rightarrow> 'a \<Rightarrow> (string \<times> json) list \<Rightarrow> string \<Rightarrow> 'a option" where
  "field f zero kvs k = (case map_of kvs k of None \<Rightarrow> Some zero | Some j \<Rightarrow> f j)"

fun unmarshal_Link :: "json \<Rightarrow> Link option" where
  "unmarshal_Link (JObject kvs) =
     (case (field unmarshal_string [] kvs ''url'', field unmarshal_string [] kvs ''title'') of
        (Some u, Some t) \<Rightarrow> Some \<lparr>URL = u, Title = t\<rparr>
      | _ \<Rightarrow> None)"
| "unmarshal_Link JNull = Some \<lparr>URL = [], Title = []\<rparr>"
| "unmarshal_Link j = None"

fun Unmarshal :: "json \<Rightarrow> MsgInfo option" where
  "Unmarshal (JObject kvs) =
     (case (field (unmarshal_list unmarshal_string) [] kvs ''mentions'',
            field (unmarshal_list unmarshal_string) [] kvs ''emotions'',
            field (unmarshal_list unmarshal_Link) [] kvs ''links'') of
        (Some m, Some e, Some l) \<Rightarrow> Some \<lparr>Mentions = m, Emotions = e, Links = l\<rparr>
      | _ \<Rightarrow> None)"
| "Unmarshal JNull = Some \<lparr>Mentions = [], Emotions = [], Links = []\<rparr>"
| "Unmarshal j = None"

section \<open>Test doubles\<close>

text \<open>
  \<open>fakeHTTPGetter\<close> of the package's test file: a table from URL to page, and the error
  "page not found" for every other URL.
\<close>

definition fakeHTTPGetter :: "(string \<times> token list) list \<Rightarrow> Parser" where
  "fakeHTTPGetter pages =
     \<lparr>hg = (\<lambda>u. case map_of pages u of None \<Rightarrow> Inl GetFailed | Some body \<Rightarrow> Inr body)\<rparr>"

text \<open>
  Library tables for concrete runs: Go's \<open>unicode\<close> predicates on the ASCII range
  (letters \<open>A-Z a-z\<close>, digits \<open>0-9\<close>, white space \<open>\t \n \v \f \r\<close> and the
  space, with U+0085 and U+00A0), no letter, digit or space beyond it, and a URL
  check that refuses exactly the ASCII control bytes, as \<open>url.Parse\<close> does first.
\<close>

definition ascii_lib :: stdlib where
  "ascii_lib =
     \<lparr>IsLetter = (\<lambda>r. (0x41 \<le> r \<and> r \<le> 0x5A) \<or> (0x61 \<le> r \<and> r \<le> 0x7A)),
      IsDigit = (\<lambda>r. 0x30 \<le> r \<and> r \<le> 0x39),
      IsSpace = (\<lambda>r. (9 \<le> r \<and> r \<le> 13) \<or> r = 0x20 \<or> r = 0x85 \<or> r = 0xA0),
      ToLowerNonASCII = (\<lambda>s. s),
      url_Parse_ok = list_all (\<lambda>c. 0x20 \<le> byte_val c \<and> byte_val c \<noteq> 0x7F)\<rparr>"

section \<open>Notions used in the statements\<close>

text \<open>
  The tokens the loop of \<open>pagetTitle\<close> passes over without returning: every token
  but a \<open>title\<close> or \<open>body\<close> start tag and a \<open>head\<close> end tag.
\<close>

definition passes :: "token \<Rightarrow> bool" where
  "passes tok =
     (case tok of
        StartTagToken name \<Rightarrow> name \<noteq> ''title'' \<and> name \<noteq> ''body''
      | EndTagToken name \<Rightarrow> name \<noteq> ''head''
      | _ \<Rightarrow> True)"

text \<open>
  The title a link gets according to the specification: the fetched page title, or the empty
  string when the fetch or the markup parsing fails.
\<close>

definition title_or_empty :: "Parser \<Rightarrow> string \<Rightarrow> string" where
  "title_or_empty p u = (case pagetTitle p u of (t, None) \<Rightarrow> t | (t, Some err) \<Rightarrow> [])"

text \<open>
  The characters of a mention (a Unicode letter, a Unicode digit or the underscore), and
  the strings that decode, rune after rune, into runes that all satisfy a predicate.
\<close>

definition mention_char :: "stdlib \<Rightarrow> rune \<Rightarrow> bool" where
  "mention_char lib r = (IsLetter lib r \<or> IsDigit lib r \<or> r = 0x5F)"



text \<open>The lists \<open>Parse\<close> starts from, and the lists of one scan followed by another's.\<close>

abbreviation no_found :: found where
  "no_found \<equiv> \<lparr>mentions = [], emotions = [], urls = []\<rparr>"

definition append_found :: "found \<Rightarrow> found \<Rightarrow> found" where
  "append_found a b =
     \<lparr>mentions = mentions a @ mentions b, emotions = emotions a @ emotions b,
      urls = urls a @ urls b\<rparr>"

text \<open>
  \<open>utf8.ValidString\<close>: no position decodes as a malformed byte. A parse result is
  well-formed when all its strings are.
\<close>

function ValidString :: "string \<Rightarrow> bool" where
  "ValidString s =
     (if s = [] then True
      else (let (r, n) = DecodeRuneInString s
            in if r = RuneError \<and> n = 1 then False else ValidString (drop n s)))"
  by pat_completeness auto
termination
proof (relation "measure length", goal_cases)
  case 1
  show ?case by simp
next
  case (2 s x r n)
  from DecodeRuneInString_size [OF 2(1)] 2(2) 2(3) have "0 < n"
    by (metis snd_conv)
  with 2(1) show ?case by simp
qed

declare ValidString.simps [simp del]

definition valid_MsgInfo :: "MsgInfo \<Rightarrow> bool" where
  "valid_MsgInfo mi =
     (list_all ValidString (Mentions mi) \<and> list_all ValidString (Emotions mi)
      \<and> list_all (\<lambda>l. ValidString (URL l) \<and> ValidString (Title l)) (Links mi))"

section \<open>Decoding single bytes\<close>

lemma decode_paren: "DecodeRuneInString (CHR ''('' # rest) = (0x28, 1)"
  by (simp add: DecodeRuneInString_def)

lemma decode_h: "DecodeRuneInString (CHR ''h'' # rest) = (0x68, 1)"
  by (simp add: DecodeRuneInString_def)

section \<open>The emotion extractor: vocabulary lookup\<close>

lemma search_hit:
  assumes "e \<in> set supportedEmotions"
  shows "SearchStrings supportedEmotions e < length supportedEmotions \<and>
     supportedEmotions ! SearchStrings supportedEmotions e = e"
proof -
  have "e = ''atlassian'' \<or> e = ''bitbucket'' \<or> e = ''boom'' \<or> e = ''crucible''
    \<or> e = ''fry'' \<or> e = ''ghost'' \<or> e = ''heart''"
    using assms by (simp only: supportedEmotions_def list.set insert_iff empty_iff simp_thms)
  moreover have "SearchStrings supportedEmotions ''atlassian'' < length supportedEmotions \<and>
     supportedEmotions ! SearchStrings supportedEmotions ''atlassian'' = ''atlassian''" by code_simp
  moreover have "SearchStrings supportedEmotions ''bitbucket'' < length supportedEmotions \<and>
     supportedEmotions ! SearchStrings supportedEmotions ''bitbucket'' = ''bitbucket''" by code_simp
  moreover have "SearchStrings supportedEmotions ''boom'' < length supportedEmotions \<and>
     supportedEmotions ! SearchStrings supportedEmotions ''boom'' = ''boom''" by code_simp
  moreover have "SearchStrings supportedEmotions ''crucible'' < length supportedEmotions \<and>
     supportedEmotions ! SearchStrings supportedEmotions ''crucible'' = ''crucible''" by code_simp
  moreover have "SearchStrings supportedEmotions ''fry'' < length supportedEmotions \<and>
     supportedEmotions ! SearchStrings supportedEmotions ''fry'' = ''fry''" by code_simp
  moreover have "SearchStrings supportedEmotions ''ghost'' < length supportedEmotions \<and>
     supportedEmotions ! SearchStrings supportedEmotions ''ghost'' = ''ghost''" by code_simp
  moreover have "SearchStrings supportedEmotions ''heart'' < length supportedEmotions \<and>
     supportedEmotions ! SearchStrings supportedEmotions ''heart'' = ''heart''" by code_simp
  ultimately show ?thesis by blast
qed

lemma search_member:
  "(SearchStrings supportedEmotions e < length supportedEmotions \<and>
     supportedEmotions ! SearchStrings supportedEmotions e = e) \<longleftrightarrow> e \<in> set supportedEmotions"
  using search_hit nth_mem by metis

lemma strings_Index_first:
  "c \<notin> set e \<Longrightarrow> strings_Index (e @ c # tail) c = Some (length e)"
  by (induction e) auto

lemma strings_Index_Some:
  "strings_Index s c = Some i \<Longrightarrow> s = take i s @ c # drop (Suc i) s \<and> c \<notin> set (take i s) \<and> i < length s"
proof (induction s arbitrary: i)
  case Nil
  then show ?case by simp
next
  case (Cons x xs)
  show ?case
  proof (cases "x = c")
    case True
    with Cons.prems show ?thesis by simp
  next
    case False
    with Cons.prems obtain k where k: "strings_Index xs c = Some k" "i = Suc k"
      by (auto split: option.splits)
    from Cons.IH [OF k(1)] False k(2) show ?thesis by auto
  qed
qed

lemma strings_Index_None: "strings_Index s c = None \<Longrightarrow> c \<notin> set s"
  by (induction s) (auto split: if_splits option.splits)

lemma emotion_paren:
  "emotion (CHR ''('' # rest) =
     (case strings_Index rest (CHR '')'') of
        None \<Rightarrow> Inr ([], 0)
      | Some i \<Rightarrow> if take i rest \<in> set supportedEmotions
          then Inr (take i rest, SearchStrings supportedEmotions (take i rest) + 1)
          else Inr ([], 0))"
proof (cases "strings_Index rest (CHR '')'')")
  case None
  then show ?thesis by (simp add: emotion_def)
next
  case (Some i)
  from strings_Index_Some [OF Some] have "i < length rest" by simp
  then have sl: "slice (CHR ''('' # rest) 1 (Suc i) = Inr (take i rest)"
    by (simp add: slice_def)
  show ?thesis
    using search_member [of "take i rest"]
    by (simp add: emotion_def Some sl Let_def del: One_nat_def) auto
qed

lemma not_in_vocab_empty: "[] \<notin> set supportedEmotions"
  by (simp add: supportedEmotions_def)

text \<open>
  C7. At an opening parenthesis an emotion is recognized exactly when the text is the
  parenthesis, a vocabulary string free of \<open>)\<close>, and \<open>)\<close>: the substring up to the first
  closing parenthesis is compared byte for byte (so case-sensitively) with the seven
  vocabulary strings. The binary search finds a string exactly when it is one of the
  seven. Texts that start with \<open>(Atlassian)\<close> or \<open>(non-emotion)\<close> never match.
\<close>

theorem emotion_recognized_iff:
  "((\<exists>n. emotion (CHR ''('' # rest) = Inr (e, n) \<and> e \<noteq> []) \<longleftrightarrow>
      (\<exists>tail. rest = e @ CHR '')'' # tail \<and> CHR '')'' \<notin> set e \<and> e \<in> set supportedEmotions))
   \<and> ((SearchStrings supportedEmotions x < length supportedEmotions \<and>
        supportedEmotions ! SearchStrings supportedEmotions x = x) \<longleftrightarrow>
       x \<in> set [''atlassian'', ''bitbucket'', ''boom'', ''crucible'', ''fry'', ''ghost'', ''heart''])
   \<and> emotion (''(Atlassian)'' @ rest') = Inr ([], 0)
   \<and> emotion (''(non-emotion)'' @ rest') = Inr ([], 0)"
proof -
  have A: "(\<exists>n. emotion (CHR ''('' # rest) = Inr (e, n) \<and> e \<noteq> []) \<longleftrightarrow>
      (\<exists>tail. rest = e @ CHR '')'' # tail \<and> CHR '')'' \<notin> set e \<and> e \<in> set supportedEmotions)"
  proof
    assume "\<exists>n. emotion (CHR ''('' # rest) = Inr (e, n) \<and> e \<noteq> []"
    then obtain n where n: "emotion (CHR ''('' # rest) = Inr (e, n)" "e \<noteq> []" by blast
    then obtain i where i: "strings_Index rest (CHR '')'') = Some i"
      by (cases "strings_Index rest (CHR '')'')") (auto simp: emotion_paren)
    with n have "take i rest \<in> set supportedEmotions" "e = take i rest"
      by (auto simp: emotion_paren split: if_splits)
    with strings_Index_Some [OF i]
    show "\<exists>tail. rest = e @ CHR '')'' # tail \<and> CHR '')'' \<notin> set e \<and> e \<in> set supportedEmotions"
      by metis
  next
    assume "\<exists>tail. rest = e @ CHR '')'' # tail \<and> CHR '')'' \<notin> set e \<and> e \<in> set supportedEmotions"
    then obtain tail where t: "rest = e @ CHR '')'' # tail" "CHR '')'' \<notin> set e"
      "e \<in> set supportedEmotions" by blast
    have "strings_Index rest (CHR '')'') = Some (length e)"
      unfolding t(1) by (rule strings_Index_first [OF t(2)])
    moreover have "take (length e) rest = e" by (simp add: t(1))
    moreover have "e \<noteq> []" using t(3) not_in_vocab_empty by metis
    ultimately show "\<exists>n. emotion (CHR ''('' # rest) = Inr (e, n) \<and> e \<noteq> []"
      using t(3) by (simp add: emotion_paren)
  qed
  have B: "(SearchStrings supportedEmotions x < length supportedEmotions \<and>
        supportedEmotions ! SearchStrings supportedEmotions x = x) \<longleftrightarrow>
       x \<in> set [''atlassian'', ''bitbucket'', ''boom'', ''crucible'', ''fry'', ''ghost'', ''heart'']"
    using search_member [of x] by (simp only: supportedEmotions_def)
  have C: "emotion (''(Atlassian)'' @ rest') = Inr ([], 0)"
  proof -
    have "strings_Index (''Atlassian'' @ CHR '')'' # rest') (CHR '')'') = Some (length ''Atlassian'')"
      by (rule strings_Index_first) simp
    then have "strings_Index (''Atlassian)'' @ rest') (CHR '')'') = Some 9" by simp
    moreover have "''Atlassian'' \<notin> set supportedEmotions" by (simp add: supportedEmotions_def)
    ultimately show ?thesis using emotion_paren [of "''Atlassian)'' @ rest'"] by simp
  qed
  have D: "emotion (''(non-emotion)'' @ rest') = Inr ([], 0)"
  proof -
    have "strings_Index (''non-emotion'' @ CHR '')'' # rest') (CHR '')'') = Some (length ''non-emotion'')"
      by (rule strings_Index_first) simp
    then have "strings_Index (''non-emotion)'' @ rest') (CHR '')'') = Some 11" by simp
    moreover have "''non-emotion'' \<notin> set supportedEmotions" by (simp add: supportedEmotions_def)
    ultimately show ?thesis using emotion_paren [of "''non-emotion)'' @ rest'"] by simp
  qed
  from A B C D show ?thesis by blast
qed

theorem emotion_recognized_iff_witness:
  "(\<exists>n. emotion ''(heart) x'' = Inr (''heart'', n))
   \<and> ''heart'' \<in> set supportedEmotions
   \<and> SearchStrings supportedEmotions ''heart'' = 6
   \<and> emotion ''(Atlassian)'' = Inr ([], 0)
   \<and> \<not> (\<exists>n. emotion ''(hearts) x'' = Inr (''hearts'', n))"
proof -
  have m: "''heart'' \<in> set supportedEmotions" by (simp add: supportedEmotions_def)
  have nm: "''hearts'' \<notin> set supportedEmotions" by (simp add: supportedEmotions_def)
  have s: "SearchStrings supportedEmotions ''heart'' = 6" by code_simp
  have 1: "\<exists>n. emotion ''(heart) x'' = Inr (''heart'', n)"
    using emotion_recognized_iff [of "''heart) x''" "''heart''" "''heart''" "[]"] m by simp
  have 2: "emotion ''(Atlassian)'' = Inr ([], 0)"
    using emotion_recognized_iff [of "[]" "[]" "[]" "[]"] by simp
  have 3: "\<not> (\<exists>n. emotion ''(hearts) x'' = Inr (''hearts'', n))"
    using emotion_recognized_iff [of "''hearts) x''" "''hearts''" "[]" "[]"] nm by simp
  from 1 2 3 m s show ?thesis by blast
qed

text \<open>
  C1. The claim is that on a hit the width spans through the closing parenthesis. The
  code overwrites the position of the parenthesis with the index found by the binary
  search: for \<open>(atlassian)\<close> (11 bytes) the extractor answers width 1, and the scanner
  moves to position 1, inside the token.
\<close>

theorem emotion_width_atlassian:
  "emotion ''(atlassian)'' = Inr (''atlassian'', 1) \<and>
   step lib ''(atlassian)'' 0 a = Inr (1, a\<lparr>emotions := emotions a @ [''atlassian'']\<rparr>)"
proof -
  have e: "emotion ''(atlassian)'' = Inr (''atlassian'', 1)" by code_simp
  have "step lib ''(atlassian)'' 0 a = Inr (1, a\<lparr>emotions := emotions a @ [''atlassian'']\<rparr>)"
    by (simp add: step_def decode_paren e RuneError_def)
  with e show ?thesis by simp
qed

section \<open>The link extractor: bounds\<close>

lemma link_https7: "link lib ''https:/'' = Inl PanicSliceBounds"
  by (simp add: link_def slice_def index_def ToLower_def ascii_lower_def)

text \<open>
  C2. The claim is that with at least 7 remaining bytes no slice of the link
  extractor leaves the string. On the 7 bytes \<open>https:/\<close> the scheme is extended to
  \<open>https\<close> and \<open>s[5:8]\<close> is out of range: the extractor panics, and so does \<open>Parse\<close>.
\<close>

theorem link_https_seven_bytes_panics:
  "link lib ''https:/'' = Inl PanicSliceBounds \<and>
   Parse lib p sched ''https:/'' = Inl PanicSliceBounds"
proof -
  have s: "step lib ''https:/'' 0 a = Inl PanicSliceBounds" for a
    by (simp add: step_def decode_h link_https7 RuneError_def)
  have "Parse_loop lib ''https:/'' 0 a = Inl PanicSliceBounds" for a
    by (subst Parse_loop.simps) (simp add: s)
  then show ?thesis by (simp add: Parse_def link_https7)
qed

section \<open>Decoding errors\<close>

text \<open>
  C3. The claim is that a well-formed message never gives a decoding error. The
  three bytes EF BF BD are the well-formed encoding of U+FFFD (the decoder reports
  width 3, not the width 1 of a malformed byte), and \<open>Parse\<close> answers "invalid rune
  at position 0": it compares the rune with \<open>RuneError\<close> and ignores the width.
\<close>

theorem Parse_rejects_encoded_replacement_char:
  "DecodeRuneInString [CHR 0xEF, CHR 0xBF, CHR 0xBD] = (0xFFFD, 3) \<and>
   Parse lib p sched [CHR 0xEF, CHR 0xBF, CHR 0xBD] = Inl (InvalidRune 0)"
proof -
  have d: "DecodeRuneInString [CHR 0xEF, CHR 0xBF, CHR 0xBD] = (0xFFFD, 3)"
    by (simp add: DecodeRuneInString_def seq_size_def accept_lo_def accept_hi_def)
  have s: "step lib [CHR 0xEF, CHR 0xBF, CHR 0xBD] 0 a = Inl (InvalidRune 0)" for a
    by (simp add: step_def d RuneError_def)
  have "Parse_loop lib [CHR 0xEF, CHR 0xBF, CHR 0xBD] 0 a = Inl (InvalidRune 0)" for a
    by (subst Parse_loop.simps) (simp add: s)
  with d show ?thesis by (simp add: Parse_def)
qed

section \<open>The page-title fetcher\<close>

lemma title_loop_pass:
  "passes tok \<Longrightarrow> title_loop h (tok # ts) = title_loop (h \<or> tok = StartTagToken ''head'') ts"
  by (cases tok) (auto simp: passes_def)

lemma title_loop_head: "title_loop h ts = title_loop h' ts"
proof (induction ts arbitrary: h h' rule: length_induct)
  case (1 ts)
  show ?case
  proof (cases ts)
    case Nil
    then show ?thesis by simp
  next
    case (Cons tok ts')
    have IH: "title_loop a ts' = title_loop b ts'" for a b
      using 1 Cons by simp
    show ?thesis
    proof (cases "passes tok")
      case True
      then show ?thesis using IH by (simp add: Cons title_loop_pass)
    next
      case False
      then consider "tok = StartTagToken ''title''" | "tok = StartTagToken ''body''"
        | "tok = EndTagToken ''head''"
        by (cases tok) (auto simp: passes_def)
      then show ?thesis
      proof cases
        case 1
        show ?thesis
        proof (cases ts')
          case Nil
          then show ?thesis by (simp add: Cons \<open>tok = StartTagToken ''title''\<close>)
        next
          case (Cons t2 ts2)
          have "title_loop a ts2 = title_loop b ts2" for a b
            using "1.IH" \<open>ts = tok # ts'\<close> Cons by simp
          then show ?thesis
            by (cases t2) (simp_all add: \<open>ts = tok # ts'\<close> Cons \<open>tok = StartTagToken ''title''\<close>)
        qed
      next
        case 2
        then show ?thesis by (simp add: Cons)
      next
        case 3
        then show ?thesis by (simp add: Cons)
      qed
    qed
  qed
qed

lemma title_loop_skip:
  "list_all passes pre \<Longrightarrow>
   title_loop h (pre @ ts) = title_loop (h \<or> StartTagToken ''head'' \<in> set pre) ts"
proof (induction pre arbitrary: h)
  case Nil
  then show ?case by simp
next
  case (Cons tok pre)
  then have "title_loop h ((tok # pre) @ ts)
      = title_loop ((h \<or> tok = StartTagToken ''head'') \<or> StartTagToken ''head'' \<in> set pre) ts"
    by (simp add: title_loop_pass)
  also have "((h \<or> tok = StartTagToken ''head'') \<or> StartTagToken ''head'' \<in> set pre)
      = (h \<or> StartTagToken ''head'' \<in> set (tok # pre))" by auto
  finally show ?case .
qed

lemma title_loop_title_text:
  "title_loop h (StartTagToken ''title'' # TextToken t # rest) = (t, None)"
  by simp

lemma title_loop_title_other:
  "\<forall>t. tok \<noteq> TextToken t \<Longrightarrow>
   title_loop h (StartTagToken ''title'' # tok # rest) = title_loop h rest"
  by (cases tok) simp_all

lemma title_loop_error_empty: "snd (title_loop h ts) \<noteq> None \<Longrightarrow> fst (title_loop h ts) = []"
proof (induction ts arbitrary: h rule: length_induct)
  case (1 ts)
  show ?case
  proof (cases ts)
    case Nil
    then show ?thesis by simp
  next
    case (Cons tok ts')
    show ?thesis
    proof (cases "passes tok")
      case True
      then show ?thesis using 1 Cons by (simp add: title_loop_pass)
    next
      case False
      then consider "tok = StartTagToken ''title''" | "tok = StartTagToken ''body''"
        | "tok = EndTagToken ''head''"
        by (cases tok) (auto simp: passes_def)
      then show ?thesis
      proof cases
        case a: 1
        show ?thesis
        proof (cases ts')
          case Nil
          then show ?thesis by (simp add: Cons a)
        next
          case c2: (Cons t2 ts2)
          show ?thesis
          proof (cases "\<exists>t. t2 = TextToken t")
            case True
            then show ?thesis using "1.prems" by (auto simp: Cons a c2)
          next
            case False
            then have "title_loop h (StartTagToken ''title'' # t2 # ts2) = title_loop h ts2"
              by (intro title_loop_title_other) simp
            then have "title_loop h ts = title_loop h ts2"
              by (simp only: Cons a c2)
            then show ?thesis using 1 Cons c2 by simp
          qed
        qed
      next
        case 2
        then show ?thesis by (simp add: Cons)
      next
        case 3
        then show ?thesis by (simp add: Cons)
      qed
    qed
  qed
qed

text \<open>
  C5. For a successfully fetched stream that starts with tokens the loop passes over
  (whether or not a \<open>head\<close> start tag is among them): a \<open>title\<close> start tag followed at
  once by a text token gives that text with no error; a \<open>body\<close> start tag or a \<open>head\<close>
  end tag gives the empty title with no error; and the end of the stream (end of input
  or a tokenizer error) gives the error "invalid html".
\<close>

theorem pagetTitle_triggers:
  assumes "hg p url = Inr body" and "list_all passes pre"
  shows "(body = pre @ StartTagToken ''title'' # TextToken t # rest \<longrightarrow>
            pagetTitle p url = (t, None))
       \<and> (body = pre @ StartTagToken ''body'' # rest \<longrightarrow> pagetTitle p url = ([], None))
       \<and> (body = pre @ EndTagToken ''head'' # rest \<longrightarrow> pagetTitle p url = ([], None))
       \<and> (body = pre \<longrightarrow> pagetTitle p url = ([], Some InvalidHtml))"
proof -
  have pt: "pagetTitle p url = title_loop False body"
    by (simp add: pagetTitle_def assms(1))
  have "title_loop False pre = ([], Some InvalidHtml)"
    using title_loop_skip [OF assms(2), of False "[]"] by simp
  then show ?thesis
    by (auto simp: pt title_loop_skip [OF assms(2)])
qed

theorem pagetTitle_triggers_witness:
  "pagetTitle (fakeHTTPGetter [(''u'', [StartTagToken ''html'', StartTagToken ''title'', TextToken ''T'', EndTagToken ''title''])]) ''u'' = (''T'', None)
 \<and> pagetTitle (fakeHTTPGetter [(''u'', [StartTagToken ''html'', StartTagToken ''body'', StartTagToken ''title'', TextToken ''T''])]) ''u'' = ([], None)
 \<and> pagetTitle (fakeHTTPGetter [(''u'', [StartTagToken ''html'', EndTagToken ''head'', StartTagToken ''title'', TextToken ''T''])]) ''u'' = ([], None)
 \<and> pagetTitle (fakeHTTPGetter [(''u'', [StartTagToken ''html''])]) ''u'' = ([], Some InvalidHtml)"
proof -
  let ?pre = "[StartTagToken ''html'']"
  have ps: "list_all passes ?pre" by (simp add: passes_def)
  have g: "hg (fakeHTTPGetter [(''u'', b)]) ''u'' = Inr b" for b
    by (simp add: fakeHTTPGetter_def)
  show ?thesis
    using pagetTitle_triggers [OF g ps, of "[StartTagToken ''html'', StartTagToken ''title'', TextToken ''T'', EndTagToken ''title'']" "''T''" "[EndTagToken ''title'']"]
      pagetTitle_triggers [OF g ps, of "[StartTagToken ''html'', StartTagToken ''body'', StartTagToken ''title'', TextToken ''T'']" "[]" "[StartTagToken ''title'', TextToken ''T'']"]
      pagetTitle_triggers [OF g ps, of "[StartTagToken ''html'', EndTagToken ''head'', StartTagToken ''title'', TextToken ''T'']" "[]" "[StartTagToken ''title'', TextToken ''T'']"]
      pagetTitle_triggers [OF g ps, of "[StartTagToken ''html'']" "[]" "[]"]
    by simp
qed




section \<open>Link enrichment\<close>

lemma pagetTitle_error_empty: "snd (pagetTitle p u) \<noteq> None \<Longrightarrow> fst (pagetTitle p u) = []"
  by (cases "hg p u") (simp_all add: pagetTitle_def title_loop_error_empty)

lemma fetchLink_title: "fetchLink p u = \<lparr>URL = u, Title = title_or_empty p u\<rparr>"
proof (cases "pagetTitle p u")
  case (Pair t e)
  then show ?thesis
    using pagetTitle_error_empty [of p u]
    by (cases e) (simp_all add: fetchLink_def title_or_empty_def)
qed

lemma receive_mset: "mset (receive sched xs) = mset xs"
proof (induction xs arbitrary: sched rule: length_induct)
  case (1 xs)
  show ?case
  proof (cases xs)
    case Nil
    then show ?thesis by simp
  next
    case (Cons y ys)
    define k where "k = (case sched of [] \<Rightarrow> 0 | c # cs \<Rightarrow> c mod length (y # ys))"
    have k: "k < length xs" unfolding k_def Cons by (cases sched) simp_all
    have "length (take k xs @ drop (Suc k) xs) < length xs" using k by simp
    with 1 have IH: "mset (receive (tl sched) (take k xs @ drop (Suc k) xs))
        = mset (take k xs @ drop (Suc k) xs)" by blast
    have "receive sched xs = xs ! k # receive (tl sched) (take k xs @ drop (Suc k) xs)"
      unfolding Cons k_def by (simp add: receive.simps(2) Let_def)
    then have "mset (receive sched xs) = add_mset (xs ! k) (mset (take k xs @ drop (Suc k) xs))"
      using IH by simp
    also have "\<dots> = mset (take k xs @ xs ! k # drop (Suc k) xs)" by simp
    also have "\<dots> = mset xs" using k by (simp only: id_take_nth_drop [symmetric])
    finally show ?thesis .
  qed
qed

lemma urlsToLinks_mset: "mset (urlsToLinks p sched us) = mset (map (fetchLink p) us)"
  by (cases us rule: list.exhaust [case_product list.exhaust])
     (simp_all add: urlsToLinks_def receive_mset split: list.splits)

text \<open>
  C4. No URL gives no link list; one URL gives the one link with that URL and its title;
  in general the links returned are, as a multiset, one link per discovered URL, each with
  that URL and with the fetched title or the empty string when fetching or parsing failed
  (for two or more URLs their order is the scheduler's). \<open>Parse\<close> returns an error exactly
  when its scanning loop does, whatever the getter answers.
\<close>

theorem urlsToLinks_one_link_per_url:
  "urlsToLinks p sched [] = []
   \<and> urlsToLinks p sched [u] = [\<lparr>URL = u, Title = title_or_empty p u\<rparr>]
   \<and> mset (urlsToLinks p sched us) = mset (map (\<lambda>u. \<lparr>URL = u, Title = title_or_empty p u\<rparr>) us)
   \<and> length (urlsToLinks p sched us) = length us
   \<and> (Parse lib p sched msg = Inl err \<longleftrightarrow>
        Parse_loop lib msg 0 \<lparr>mentions = [], emotions = [], urls = []\<rparr> = Inl err)"
proof -
  have m: "mset (urlsToLinks p sched us) = mset (map (\<lambda>u. \<lparr>URL = u, Title = title_or_empty p u\<rparr>) us)"
  proof -
    have "fetchLink p = (\<lambda>u. \<lparr>URL = u, Title = title_or_empty p u\<rparr>)"
      by (rule ext) (rule fetchLink_title)
    then show ?thesis by (simp only: urlsToLinks_mset)
  qed
  from arg_cong [OF m, of size] have l: "length (urlsToLinks p sched us) = length us"
    by simp
  have e: "Parse lib p sched msg = Inl err \<longleftrightarrow>
        Parse_loop lib msg 0 \<lparr>mentions = [], emotions = [], urls = []\<rparr> = Inl err"
    by (simp add: Parse_def split: sum.splits)
  have "urlsToLinks p sched [u] = [\<lparr>URL = u, Title = title_or_empty p u\<rparr>]"
    by (simp add: urlsToLinks_def fetchLink_title)
  moreover have "urlsToLinks p sched [] = []" by (simp add: urlsToLinks_def)
  ultimately show ?thesis using m l e by blast
qed


theorem urlsToLinks_one_link_per_url_witness:
  "urlsToLinks (fakeHTTPGetter [(''a'', [StartTagToken ''title'', TextToken ''A''])]) [1] [''a'', ''b'']
     = [\<lparr>URL = ''b'', Title = []\<rparr>, \<lparr>URL = ''a'', Title = ''A''\<rparr>]
   \<and> mset (urlsToLinks (fakeHTTPGetter [(''a'', [StartTagToken ''title'', TextToken ''A''])]) [1] [''a'', ''b''])
     = mset [\<lparr>URL = ''a'', Title = ''A''\<rparr>, \<lparr>URL = ''b'', Title = []\<rparr>]
   \<and> urlsToLinks (fakeHTTPGetter []) [] [''b''] = [\<lparr>URL = ''b'', Title = []\<rparr>]"
proof -
  let ?p = "fakeHTTPGetter [(''a'', [StartTagToken ''title'', TextToken ''A''])]"
  have a: "title_or_empty ?p ''a'' = ''A''"
    by (simp add: title_or_empty_def pagetTitle_def fakeHTTPGetter_def)
  have b: "title_or_empty ?p ''b'' = []"
    by (simp add: title_or_empty_def pagetTitle_def fakeHTTPGetter_def)
  have b': "title_or_empty (fakeHTTPGetter []) ''b'' = []"
    by (simp add: title_or_empty_def pagetTitle_def fakeHTTPGetter_def)
  have 1: "urlsToLinks ?p [1] [''a'', ''b''] = [\<lparr>URL = ''b'', Title = []\<rparr>, \<lparr>URL = ''a'', Title = ''A''\<rparr>]"
    by (simp add: urlsToLinks_def receive.simps(2) fetchLink_def pagetTitle_def fakeHTTPGetter_def)
  have 2: "mset (urlsToLinks ?p [1] [''a'', ''b''])
     = mset [\<lparr>URL = ''a'', Title = ''A''\<rparr>, \<lparr>URL = ''b'', Title = []\<rparr>]"
    using urlsToLinks_one_link_per_url [of ?p "[1]" "''a''" "[''a'', ''b'']" ascii_lib "[]" GetFailed]
    by (simp only: list.map a b) 
  have 3: "urlsToLinks (fakeHTTPGetter []) [] [''b''] = [\<lparr>URL = ''b'', Title = []\<rparr>]"
    using urlsToLinks_one_link_per_url [of "fakeHTTPGetter []" "[]" "''b''" "[]" ascii_lib "[]" GetFailed]
    by (simp only: b') 
  from 1 2 3 show ?thesis by blast
qed


section \<open>The scanner: links and word boundaries\<close>

lemma decode_ascii:
  "byte_val c < 0x80 \<Longrightarrow> DecodeRuneInString (c # rest) = (byte_val c, 1)"
  by (simp add: DecodeRuneInString_def)

lemma drop_nth_Cons: "i < length msg \<Longrightarrow> drop i msg = msg ! i # drop (Suc i) msg"
  by (simp add: Cons_nth_drop_Suc)

lemma Parse_loop_step:
  "i < length msg \<Longrightarrow> step lib msg i a = Inr (i', a') \<Longrightarrow>
   Parse_loop lib msg i a = Parse_loop lib msg i' a'"
  by (subst Parse_loop.simps) simp

lemma Parse_loop_end: "length msg \<le> i \<Longrightarrow> Parse_loop lib msg i a = Inr a"
  by (subst Parse_loop.simps) simp

lemma byte_val_neq: "c \<noteq> d \<Longrightarrow> byte_val c \<noteq> byte_val d"
  by simp

lemma step_plain:
  assumes "i < length msg" and "byte_val (msg ! i) < 0x80"
    and "msg ! i \<noteq> CHR ''(''" and "msg ! i \<noteq> CHR ''@''"
    and "msg ! i \<noteq> CHR ''h''" and "msg ! i \<noteq> CHR ''H''"
  shows "step lib msg i a = Inr (i + 1, a)"
proof -
  have d: "DecodeRuneInString (drop i msg) = (byte_val (msg ! i), 1)"
    by (simp add: drop_nth_Cons [OF assms(1)] decode_ascii [OF assms(2)])
  have n1: "byte_val (msg ! i) \<noteq> RuneError" using assms(2) by (simp add: RuneError_def)
  have n2: "byte_val (msg ! i) \<noteq> 0x28" using byte_val_neq [OF assms(3)] by simp
  have n3: "byte_val (msg ! i) \<noteq> 0x40" using byte_val_neq [OF assms(4)] by simp
  have n4: "byte_val (msg ! i) \<noteq> 0x68" using byte_val_neq [OF assms(5)] by simp
  have n5: "byte_val (msg ! i) \<noteq> 0x48" using byte_val_neq [OF assms(6)] by simp
  show ?thesis by (simp add: step_def d n1 n2 n3 n4 n5)
qed

lemma decode_at_h:
  assumes "i < length msg" and "msg ! i = CHR ''h'' \<or> msg ! i = CHR ''H''"
  shows "\<exists>r. DecodeRuneInString (drop i msg) = (r, 1) \<and> (r = 0x48 \<or> r = 0x68)"
  using assms(2) by (auto simp: drop_nth_Cons [OF assms(1)] DecodeRuneInString_def)

lemma step_link_blocked:
  assumes "i < length msg" and "0 < i"
    and "msg ! i = CHR ''h'' \<or> msg ! i = CHR ''H''"
    and "IsLetter lib (fst (DecodeLastRune (take i msg)))
         \<or> IsDigit lib (fst (DecodeLastRune (take i msg)))"
  shows "step lib msg i a = Inr (i + 1, a)"
proof -
  from decode_at_h [OF assms(1,3)] obtain r where
    d: "DecodeRuneInString (drop i msg) = (r, 1)" and r: "r = 0x48 \<or> r = 0x68" by blast
  have ne: "r \<noteq> RuneError" "r \<noteq> 0x28" "r \<noteq> 0x40" using r by (auto simp: RuneError_def)
  obtain r' w where l: "DecodeLastRune (take i msg) = (r', w)"
    by (cases "DecodeLastRune (take i msg)")
  with assms(4) have "IsLetter lib r' \<or> IsDigit lib r'" by simp
  then show ?thesis
    using r assms(2) by (auto simp add: step_def d ne l)
qed

lemma step_link_taken:
  assumes "i < length msg"
    and "msg ! i = CHR ''h'' \<or> msg ! i = CHR ''H''"
    and "i = 0 \<or> (\<not> IsLetter lib (fst (DecodeLastRune (take i msg)))
                   \<and> \<not> IsDigit lib (fst (DecodeLastRune (take i msg))))"
    and "link lib (drop i msg) = Inr (url, n)" and "url \<noteq> []"
  shows "step lib msg i a = Inr (i + n, a\<lparr>urls := urls a @ [url]\<rparr>)"
proof -
  from decode_at_h [OF assms(1,2)] obtain r where
    d: "DecodeRuneInString (drop i msg) = (r, 1)" and r: "r = 0x48 \<or> r = 0x68" by blast
  have ne: "r \<noteq> RuneError" "r \<noteq> 0x28" "r \<noteq> 0x40" using r by (auto simp: RuneError_def)
  obtain r' w where l: "DecodeLastRune (take i msg) = (r', w)"
    by (cases "DecodeLastRune (take i msg)")
  with assms(3) have "i = 0 \<or> (\<not> IsLetter lib r' \<and> \<not> IsDigit lib r')" by simp
  then show ?thesis
    using r assms(4,5) by (auto simp add: step_def d ne l)
qed

lemma Parse_loop_plain_tail:
  assumes "\<forall>j. i \<le> j \<and> j < length msg \<longrightarrow> byte_val (msg ! j) < 0x80
     \<and> msg ! j \<noteq> CHR ''('' \<and> msg ! j \<noteq> CHR ''@'' \<and> msg ! j \<noteq> CHR ''h'' \<and> msg ! j \<noteq> CHR ''H''"
  shows "Parse_loop lib msg i a = Inr a"
  using assms
proof (induction "length msg - i" arbitrary: i)
  case 0
  then show ?case by (simp add: Parse_loop_end)
next
  case (Suc n)
  then have i: "i < length msg" by simp
  with Suc.prems have "step lib msg i a = Inr (i + 1, a)"
    by (intro step_plain) auto
  from Parse_loop_step [OF i this] have "Parse_loop lib msg i a = Parse_loop lib msg (i + 1) a" .
  moreover have "Parse_loop lib msg (i + 1) a = Inr a"
    using Suc.hyps(2) Suc.prems by (intro Suc.hyps(1)) auto
  ultimately show ?case by simp
qed

lemma Parse_xhttp:
  assumes "IsLetter lib 0x78 \<or> IsDigit lib 0x78"
  shows "Parse lib p sched ''xhttp://a.com'' = Inr \<lparr>Mentions = [], Emotions = [], Links = []\<rparr>"
proof -
  let ?msg = "''xhttp://a.com''"
  let ?a = "\<lparr>mentions = [], emotions = [], urls = []\<rparr>"
  have "step lib ?msg 0 ?a = Inr (0 + 1, ?a)"
    by (rule step_plain) simp_all
  then have 0: "step lib ?msg 0 ?a = Inr (1, ?a)" by simp
  have dl: "DecodeLastRune ''x'' = (0x78, 1)"
    by (simp add: DecodeLastRune_def)
  have "step lib ?msg 1 ?a = Inr (1 + 1, ?a)"
    by (rule step_link_blocked) (simp_all add: dl assms)
  then have 1: "step lib ?msg 1 ?a = Inr (2, ?a)" by simp
  have 2: "Parse_loop lib ?msg 2 ?a = Inr ?a"
  proof (rule Parse_loop_plain_tail, intro allI impI)
    fix j assume "2 \<le> j \<and> j < length ?msg"
    moreover have "length ?msg = 13" by simp
    ultimately have "2 \<le> j \<and> j < 13" by (simp only:)
    then have "j \<in> {2,3,4,5,6,7,8,9,10,11,12}" by (simp only: insert_iff empty_iff) arith
    then show "byte_val (?msg ! j) < 0x80
     \<and> ?msg ! j \<noteq> CHR ''('' \<and> ?msg ! j \<noteq> CHR ''@'' \<and> ?msg ! j \<noteq> CHR ''h'' \<and> ?msg ! j \<noteq> CHR ''H''"
      by (elim insertE) simp_all
  qed
  have "Parse_loop lib ?msg 0 ?a = Parse_loop lib ?msg 1 ?a"
    by (rule Parse_loop_step [OF _ 0]) simp
  also have "\<dots> = Parse_loop lib ?msg 2 ?a"
    by (rule Parse_loop_step [OF _ 1]) simp
  finally show ?thesis by (simp add: Parse_def 2 urlsToLinks_def)
qed


lemma link_a_com:
  assumes "url_Parse_ok lib ''http://a.com''" and "spaceIndex lib ''http://a.com'' = None"
  shows "link lib ''http://a.com'' = Inr (''http://a.com'', 12)"
  using assms by (simp add: link_def slice_def index_def ToLower_def ascii_lower_def)

lemma Parse_space_http:
  assumes "\<not> IsLetter lib 0x20" and "\<not> IsDigit lib 0x20"
    and "url_Parse_ok lib ''http://a.com''" and "spaceIndex lib ''http://a.com'' = None"
  shows "Parse lib p sched '' http://a.com''
    = Inr \<lparr>Mentions = [], Emotions = [], Links = [fetchLink p ''http://a.com'']\<rparr>"
proof -
  let ?msg = "'' http://a.com''"
  let ?a = "\<lparr>mentions = [], emotions = [], urls = []\<rparr>"
  have "step lib ?msg 0 ?a = Inr (0 + 1, ?a)"
    by (rule step_plain) simp_all
  then have 0: "step lib ?msg 0 ?a = Inr (1, ?a)" by simp
  have dl: "DecodeLastRune '' '' = (0x20, 1)"
    by (simp add: DecodeLastRune_def)
  have "step lib ?msg 1 ?a = Inr (1 + 12, ?a\<lparr>urls := urls ?a @ [''http://a.com'']\<rparr>)"
    by (rule step_link_taken) (simp_all add: dl assms link_a_com)
  then have 1: "step lib ?msg 1 ?a = Inr (13, ?a\<lparr>urls := urls ?a @ [''http://a.com'']\<rparr>)"
    by simp
  have "Parse_loop lib ?msg 0 ?a = Parse_loop lib ?msg 1 ?a"
    by (rule Parse_loop_step [OF _ 0]) simp
  also have "\<dots> = Parse_loop lib ?msg 13 (?a\<lparr>urls := urls ?a @ [''http://a.com'']\<rparr>)"
    by (rule Parse_loop_step [OF _ 1]) simp
  also have "\<dots> = Inr (?a\<lparr>urls := urls ?a @ [''http://a.com'']\<rparr>)"
    by (rule Parse_loop_end) simp
  finally show ?thesis by (simp add: Parse_def urlsToLinks_def)
qed

lemma ascii_lib_simps:
  "IsLetter ascii_lib r = ((0x41 \<le> r \<and> r \<le> 0x5A) \<or> (0x61 \<le> r \<and> r \<le> 0x7A))"
  "IsDigit ascii_lib r = (0x30 \<le> r \<and> r \<le> 0x39)"
  "IsSpace ascii_lib r = ((9 \<le> r \<and> r \<le> 13) \<or> r = 0x20 \<or> r = 0x85 \<or> r = 0xA0)"
  "ToLowerNonASCII ascii_lib s = s"
  "url_Parse_ok ascii_lib s = list_all (\<lambda>c. 0x20 \<le> byte_val c \<and> byte_val c \<noteq> 0x7F) s"
  by (simp_all add: ascii_lib_def)

section \<open>The mention extractor and the order of discovery\<close>





lemma mention_loop_stop:
  "i < length s \<Longrightarrow> \<not> mention_char lib (fst (DecodeRuneInString (drop i s))) \<Longrightarrow>
   mention_loop lib s i = i"
  by (subst mention_loop.simps) (auto simp add: mention_char_def split: prod.splits)

lemma mention_loop_go:
  "i < length s \<Longrightarrow> DecodeRuneInString (drop i s) = (r, n) \<Longrightarrow> mention_char lib r \<Longrightarrow>
   mention_loop lib s i = mention_loop lib s (i + n)"
  by (subst mention_loop.simps) (simp add: mention_char_def)





lemma append_found_simps:
  "append_found a no_found = a"
  "append_found (append_found a b) c = append_found a (append_found b c)"
  "append_found a (no_found\<lparr>mentions := [m]\<rparr>) = a\<lparr>mentions := mentions a @ [m]\<rparr>"
  "append_found a (no_found\<lparr>emotions := [m]\<rparr>) = a\<lparr>emotions := emotions a @ [m]\<rparr>"
  "append_found a (no_found\<lparr>urls := [m]\<rparr>) = a\<lparr>urls := urls a @ [m]\<rparr>"
  by (simp_all add: append_found_def)

lemma step_acc:
  "step lib msg i a =
     (case step lib msg i no_found of
        Inl err \<Rightarrow> Inl err
      | Inr (i', d) \<Rightarrow> Inr (i', append_found a d))"
proof -
  obtain r size where d: "DecodeRuneInString (drop i msg) = (r, size)"
    by (cases "DecodeRuneInString (drop i msg)")
  obtain r' w where l: "DecodeLastRune (take i msg) = (r', w)"
    by (cases "DecodeLastRune (take i msg)")
  show ?thesis
    apply (simp add: step_def d l Let_def)
    apply (cases "emotion (drop i msg)"; cases "mention lib (drop i msg)";
        cases "link lib (drop i msg)")
    by (auto simp: append_found_def split: prod.splits)
qed

lemma Parse_loop_acc:
  "Parse_loop lib msg i a =
     (case Parse_loop lib msg i no_found of
        Inl err \<Rightarrow> Inl err
      | Inr r \<Rightarrow> Inr (append_found a r))"
proof (induction "length msg - i" arbitrary: i a rule: less_induct)
  case less
  show ?case
  proof (cases "i < length msg")
    case False
    then show ?thesis by (simp add: Parse_loop_end append_found_simps)
  next
    case True
    show ?thesis
    proof (cases "step lib msg i no_found")
      case (Inl err)
      then have "step lib msg i a = Inl err" by (subst step_acc) simp
      with Inl True show ?thesis by (simp add: Parse_loop.simps [of lib msg i])
    next
      case (Inr x)
      obtain i' d where x: "x = (i', d)" by (cases x)
      have s0: "step lib msg i no_found = Inr (i', d)" using Inr x by simp
      have sa: "step lib msg i a = Inr (i', append_found a d)"
        by (subst step_acc) (simp add: s0)
      from step_progress [OF True s0] have "length msg - i' < length msg - i"
        using True by simp
      note IH = less.hyps [OF this]
      have L: "Parse_loop lib msg i a = Parse_loop lib msg i' (append_found a d)"
        by (rule Parse_loop_step [OF True sa])
      have R: "Parse_loop lib msg i no_found = Parse_loop lib msg i' d"
        by (rule Parse_loop_step [OF True s0])
      have A: "Parse_loop lib msg i' (append_found a d) =
          (case Parse_loop lib msg i' no_found of
             Inl err \<Rightarrow> Inl err
           | Inr r \<Rightarrow> Inr (append_found (append_found a d) r))"
        by (rule IH)
      have B: "Parse_loop lib msg i' d =
          (case Parse_loop lib msg i' no_found of
             Inl err \<Rightarrow> Inl err
           | Inr r \<Rightarrow> Inr (append_found d r))"
        by (rule IH)
      show ?thesis
        unfolding L R A B
        by (cases "Parse_loop lib msg i' no_found") (simp_all add: append_found_simps)
    qed
  qed
qed

lemma decode_at: "DecodeRuneInString (CHR ''@'' # rest) = (0x40, 1)"
  by (simp add: DecodeRuneInString_def)

lemma step_mention:
  assumes "i < length msg" and "msg ! i = CHR ''@''"
    and "mention lib (drop i msg) = Inr (m, w)" and "m \<noteq> []"
  shows "step lib msg i a = Inr (i + w, a\<lparr>mentions := mentions a @ [m]\<rparr>)"
proof -
  have d: "DecodeRuneInString (drop i msg) = (0x40, 1)"
    by (simp add: drop_nth_Cons [OF assms(1)] assms(2) decode_at)
  show ?thesis by (simp add: step_def d assms(3,4) RuneError_def)
qed


lemma Parse_loop_mention:
  assumes "i < length msg" and "msg ! i = CHR ''@''"
    and "mention lib (drop i msg) = Inr (m, w)" and "m \<noteq> []"
    and "Parse_loop lib msg (i + w) no_found = Inr r"
  shows "Parse_loop lib msg i a =
    Inr \<lparr>mentions = mentions a @ m # mentions r, emotions = emotions a @ emotions r,
         urls = urls a @ urls r\<rparr>"
proof -
  have "Parse_loop lib msg i a = Parse_loop lib msg (i + w) (a\<lparr>mentions := mentions a @ [m]\<rparr>)"
    by (rule Parse_loop_step [OF assms(1) step_mention [OF assms(1-4)]])
  also have "\<dots> = Inr (append_found (a\<lparr>mentions := mentions a @ [m]\<rparr>) r)"
    by (subst Parse_loop_acc) (simp add: assms(5))
  finally show ?thesis by (simp add: append_found_def)
qed







section \<open>The scanner: a link candidate and what precedes it\<close>

lemma mention_at_http:
  assumes "mention_char lib 0x68" and "mention_char lib 0x74" and "mention_char lib 0x70"
    and "\<not> mention_char lib 0x3A"
  shows "mention lib ''@http://a.com'' = Inr (''http'', 5)"
proof -
  let ?s = "''@http://a.com''"
  have d1: "DecodeRuneInString (drop 1 ?s) = (0x68, 1)" by (simp add: DecodeRuneInString_def)
  have d2: "DecodeRuneInString (drop 2 ?s) = (0x74, 1)" by (simp add: DecodeRuneInString_def)
  have d3: "DecodeRuneInString (drop 3 ?s) = (0x74, 1)" by (simp add: DecodeRuneInString_def)
  have d4: "DecodeRuneInString (drop 4 ?s) = (0x70, 1)" by (simp add: DecodeRuneInString_def)
  have d5: "DecodeRuneInString (drop 5 ?s) = (0x3A, 1)" by (simp add: DecodeRuneInString_def)
  have ar: "(1::nat) + 1 = 2" "(2::nat) + 1 = 3" "(3::nat) + 1 = 4" "(4::nat) + 1 = 5"
    by simp_all
  have s1: "mention_loop lib ?s 1 = mention_loop lib ?s (1 + 1)"
    by (rule mention_loop_go [OF _ d1 assms(1)]) simp
  have s2: "mention_loop lib ?s 2 = mention_loop lib ?s (2 + 1)"
    by (rule mention_loop_go [OF _ d2 assms(2)]) simp
  have s3: "mention_loop lib ?s 3 = mention_loop lib ?s (3 + 1)"
    by (rule mention_loop_go [OF _ d3 assms(2)]) simp
  have s4: "mention_loop lib ?s 4 = mention_loop lib ?s (4 + 1)"
    by (rule mention_loop_go [OF _ d4 assms(3)]) simp
  have "\<not> mention_char lib (fst (DecodeRuneInString (drop 5 ?s)))"
    unfolding d5 using assms(4) by simp
  then have s5: "mention_loop lib ?s 5 = 5"
    by (rule mention_loop_stop [rotated]) simp
  have j: "mention_loop lib ?s 1 = 5"
    unfolding s1 ar s2 s3 s4 by (rule s5)
  show ?thesis unfolding mention_def j by (simp add: slice_def)
qed

lemma Parse_at_http:
  assumes "mention_char lib 0x68" and "mention_char lib 0x74" and "mention_char lib 0x70"
    and "\<not> mention_char lib 0x3A"
  shows "Parse lib p sched ''@http://a.com''
    = Inr \<lparr>Mentions = [''http''], Emotions = [], Links = []\<rparr>"
proof -
  let ?msg = "''@http://a.com''"
  have t: "Parse_loop lib ?msg 5 no_found = Inr no_found"
  proof (rule Parse_loop_plain_tail, intro allI impI)
    fix j assume "5 \<le> j \<and> j < length ?msg"
    moreover have "length ?msg = 13" by simp
    ultimately have "5 \<le> j \<and> j < 13" by (simp only:)
    then have "j \<in> {5,6,7,8,9,10,11,12}" by (simp only: insert_iff empty_iff) arith
    then show "byte_val (?msg ! j) < 0x80
     \<and> ?msg ! j \<noteq> CHR ''('' \<and> ?msg ! j \<noteq> CHR ''@'' \<and> ?msg ! j \<noteq> CHR ''h'' \<and> ?msg ! j \<noteq> CHR ''H''"
      by (elim insertE) simp_all
  qed
  have m: "mention lib (drop 0 ?msg) = Inr (''http'', 5)"
    using mention_at_http [OF assms] by simp
  have t': "Parse_loop lib ?msg (0 + 5) no_found = Inr no_found" using t by simp
  have "Parse_loop lib ?msg 0 no_found =
    Inr \<lparr>mentions = mentions no_found @ ''http'' # mentions no_found,
         emotions = emotions no_found @ emotions no_found,
         urls = urls no_found @ urls no_found\<rparr>"
    by (rule Parse_loop_mention [OF _ _ m _ t']) simp_all
  then show ?thesis by (simp add: Parse_def urlsToLinks_def)
qed

text \<open>
  C6, as amended. When the scanner stands at a position \<open>i > 0\<close> holding \<open>h\<close> or \<open>H\<close> whose
  preceding code point (the last rune of \<open>msg[:i]\<close>) is a letter or a digit, it does not
  consult the link extractor: it moves on by one byte with its lists unchanged, so no
  link is extracted there. When it stands at such a position at the start of the text,
  or after a code point that is neither letter nor digit, a candidate the link extractor
  accepts is appended to the URLs and skipped whole. So \<open>xhttp://a.com\<close> yields no link
  when \<open>x\<close> is a letter, and \<open> http://a.com\<close> yields the link when the space is neither
  letter nor digit and the library accepts the URL. The scanner never stands inside a
  token it has matched: in \<open>@http://a.com\<close> the mention takes \<open>http\<close> (its letters are
  mention characters, the colon is not), and no link is extracted.
\<close>

theorem link_not_mid_word:
  "(0 < i \<and> i < length msg \<and> (msg ! i = CHR ''h'' \<or> msg ! i = CHR ''H'')
      \<and> (IsLetter lib (fst (DecodeLastRune (take i msg)))
           \<or> IsDigit lib (fst (DecodeLastRune (take i msg))))
    \<longrightarrow> step lib msg i a = Inr (i + 1, a)
        \<and> Parse_loop lib msg i a = Parse_loop lib msg (i + 1) a)
 \<and> (i < length msg \<and> (msg ! i = CHR ''h'' \<or> msg ! i = CHR ''H'')
      \<and> (i = 0 \<or> (\<not> IsLetter lib (fst (DecodeLastRune (take i msg)))
                    \<and> \<not> IsDigit lib (fst (DecodeLastRune (take i msg)))))
      \<and> link lib (drop i msg) = Inr (url, n) \<and> url \<noteq> []
    \<longrightarrow> step lib msg i a = Inr (i + n, a\<lparr>urls := urls a @ [url]\<rparr>)
        \<and> Parse_loop lib msg i a = Parse_loop lib msg (i + n) (a\<lparr>urls := urls a @ [url]\<rparr>))
 \<and> (IsLetter lib 0x78 \<or> IsDigit lib 0x78
    \<longrightarrow> Parse lib p sched ''xhttp://a.com'' = Inr \<lparr>Mentions = [], Emotions = [], Links = []\<rparr>)
 \<and> (\<not> IsLetter lib 0x20 \<and> \<not> IsDigit lib 0x20
      \<and> url_Parse_ok lib ''http://a.com'' \<and> spaceIndex lib ''http://a.com'' = None
    \<longrightarrow> Parse lib p sched '' http://a.com''
          = Inr \<lparr>Mentions = [], Emotions = [], Links = [fetchLink p ''http://a.com'']\<rparr>)
 \<and> (mention_char lib 0x68 \<and> mention_char lib 0x74 \<and> mention_char lib 0x70
      \<and> \<not> mention_char lib 0x3A
    \<longrightarrow> Parse lib p sched ''@http://a.com''
          = Inr \<lparr>Mentions = [''http''], Emotions = [], Links = []\<rparr>)"
proof (intro conjI impI)
  assume h: "0 < i \<and> i < length msg \<and> (msg ! i = CHR ''h'' \<or> msg ! i = CHR ''H'')
      \<and> (IsLetter lib (fst (DecodeLastRune (take i msg)))
           \<or> IsDigit lib (fst (DecodeLastRune (take i msg))))"
  then show s: "step lib msg i a = Inr (i + 1, a)"
    by (intro step_link_blocked) blast+
  from h Parse_loop_step [OF _ s]
  show "Parse_loop lib msg i a = Parse_loop lib msg (i + 1) a" by blast
next
  assume h: "i < length msg \<and> (msg ! i = CHR ''h'' \<or> msg ! i = CHR ''H'')
      \<and> (i = 0 \<or> (\<not> IsLetter lib (fst (DecodeLastRune (take i msg)))
                    \<and> \<not> IsDigit lib (fst (DecodeLastRune (take i msg)))))
      \<and> link lib (drop i msg) = Inr (url, n) \<and> url \<noteq> []"
  then show s: "step lib msg i a = Inr (i + n, a\<lparr>urls := urls a @ [url]\<rparr>)"
    by (intro step_link_taken) blast+
  from h Parse_loop_step [OF _ s]
  show "Parse_loop lib msg i a = Parse_loop lib msg (i + n) (a\<lparr>urls := urls a @ [url]\<rparr>)"
    by blast
next
  assume "IsLetter lib 0x78 \<or> IsDigit lib 0x78"
  then show "Parse lib p sched ''xhttp://a.com'' = Inr \<lparr>Mentions = [], Emotions = [], Links = []\<rparr>"
    by (rule Parse_xhttp)
next
  assume "\<not> IsLetter lib 0x20 \<and> \<not> IsDigit lib 0x20
      \<and> url_Parse_ok lib ''http://a.com'' \<and> spaceIndex lib ''http://a.com'' = None"
  then show "Parse lib p sched '' http://a.com''
          = Inr \<lparr>Mentions = [], Emotions = [], Links = [fetchLink p ''http://a.com'']\<rparr>"
    by (intro Parse_space_http) blast+
next
  assume "mention_char lib 0x68 \<and> mention_char lib 0x74 \<and> mention_char lib 0x70
      \<and> \<not> mention_char lib 0x3A"
  then show "Parse lib p sched ''@http://a.com''
          = Inr \<lparr>Mentions = [''http''], Emotions = [], Links = []\<rparr>"
    by (intro Parse_at_http) blast+
qed

theorem link_not_mid_word_witness:
  "step ascii_lib ''xhttp://a.com'' 1 \<lparr>mentions = [], emotions = [], urls = []\<rparr>
     = Inr (2, \<lparr>mentions = [], emotions = [], urls = []\<rparr>)
 \<and> step ascii_lib '' http://a.com'' 1 \<lparr>mentions = [], emotions = [], urls = []\<rparr>
     = Inr (13, \<lparr>mentions = [], emotions = [], urls = [''http://a.com'']\<rparr>)
 \<and> step ascii_lib ''http://a.com'' 0 \<lparr>mentions = [], emotions = [], urls = []\<rparr>
     = Inr (12, \<lparr>mentions = [], emotions = [], urls = [''http://a.com'']\<rparr>)
 \<and> Parse ascii_lib (fakeHTTPGetter []) [] ''xhttp://a.com''
     = Inr \<lparr>Mentions = [], Emotions = [], Links = []\<rparr>
 \<and> Parse ascii_lib (fakeHTTPGetter []) [] '' http://a.com''
     = Inr \<lparr>Mentions = [], Emotions = [], Links = [\<lparr>URL = ''http://a.com'', Title = []\<rparr>]\<rparr>
 \<and> Parse ascii_lib (fakeHTTPGetter []) [] ''@http://a.com''
     = Inr \<lparr>Mentions = [''http''], Emotions = [], Links = []\<rparr>"
proof -
  let ?a = "\<lparr>mentions = [], emotions = [], urls = []\<rparr>"
  have sp: "spaceIndex ascii_lib ''http://a.com'' = None" by code_simp
  have ok: "url_Parse_ok ascii_lib ''http://a.com''" by (simp add: ascii_lib_simps)
  have lk: "link ascii_lib ''http://a.com'' = Inr (''http://a.com'', 12)" by code_simp
  have dx: "DecodeLastRune ''x'' = (0x78, 1)" by (simp add: DecodeLastRune_def)
  have ds: "DecodeLastRune '' '' = (0x20, 1)" by (simp add: DecodeLastRune_def)
  have fl: "fetchLink (fakeHTTPGetter []) ''http://a.com'' = \<lparr>URL = ''http://a.com'', Title = []\<rparr>"
    by (simp add: fetchLink_def pagetTitle_def fakeHTTPGetter_def)
  have 1: "step ascii_lib ''xhttp://a.com'' 1 ?a = Inr (2, ?a)"
    using link_not_mid_word [of 1 "''xhttp://a.com''" ascii_lib ?a "[]" 0 "fakeHTTPGetter []" "[]"]
    by (simp add: dx ascii_lib_simps)
  have 2: "step ascii_lib '' http://a.com'' 1 ?a = Inr (13, ?a\<lparr>urls := [''http://a.com'']\<rparr>)"
    using link_not_mid_word [of 1 "'' http://a.com''" ascii_lib ?a "''http://a.com''" 12 "fakeHTTPGetter []" "[]"]
    by (simp add: ds lk ascii_lib_simps)
  have 3: "step ascii_lib ''http://a.com'' 0 ?a = Inr (12, ?a\<lparr>urls := [''http://a.com'']\<rparr>)"
    using link_not_mid_word [of 0 "''http://a.com''" ascii_lib ?a "''http://a.com''" 12 "fakeHTTPGetter []" "[]"]
    by (simp add: lk)
  have 4: "Parse ascii_lib (fakeHTTPGetter []) [] ''xhttp://a.com''
     = Inr \<lparr>Mentions = [], Emotions = [], Links = []\<rparr>"
    using link_not_mid_word [of 1 "''xhttp://a.com''" ascii_lib ?a "[]" 0 "fakeHTTPGetter []" "[]"]
    by (simp add: ascii_lib_simps)
  have 5: "Parse ascii_lib (fakeHTTPGetter []) [] '' http://a.com''
     = Inr \<lparr>Mentions = [], Emotions = [], Links = [\<lparr>URL = ''http://a.com'', Title = []\<rparr>]\<rparr>"
    using link_not_mid_word [of 1 "'' http://a.com''" ascii_lib ?a "[]" 0 "fakeHTTPGetter []" "[]"]
    by (simp add: ascii_lib_simps sp fl)
  have 6: "Parse ascii_lib (fakeHTTPGetter []) [] ''@http://a.com''
     = Inr \<lparr>Mentions = [''http''], Emotions = [], Links = []\<rparr>"
    using link_not_mid_word [of 1 "''xhttp://a.com''" ascii_lib ?a "[]" 0 "fakeHTTPGetter []" "[]"]
    by (simp add: ascii_lib_simps mention_char_def)
  from 1 2 3 4 5 6 show ?thesis by simp
qed

text \<open>
  C6 as stated fails for a candidate the scanner does not stand at. In \<open>@http://a.com\<close>
  position 1 holds \<open>h\<close>, the preceding code point \<open>@\<close> is neither letter nor digit, and
  the link extractor accepts the text from position 1; yet \<open>Parse\<close> returns the mention
  \<open>http\<close> and no link.
\<close>

theorem link_after_at_counterexample:
  "Parse ascii_lib (fakeHTTPGetter []) [] ''@http://a.com''
     = Inr \<lparr>Mentions = [''http''], Emotions = [], Links = []\<rparr>
 \<and> ''@http://a.com'' ! 1 = CHR ''h''
 \<and> DecodeLastRune (take 1 ''@http://a.com'') = (0x40, 1)
 \<and> \<not> IsLetter ascii_lib 0x40 \<and> \<not> IsDigit ascii_lib 0x40
 \<and> link ascii_lib (drop 1 ''@http://a.com'') = Inr (''http://a.com'', 12)"
proof -
  have P: "Parse ascii_lib (fakeHTTPGetter []) [] ''@http://a.com''
     = Inr \<lparr>Mentions = [''http''], Emotions = [], Links = []\<rparr>"
    by (rule Parse_at_http) (simp_all add: mention_char_def ascii_lib_simps)
  have n: "''@http://a.com'' ! 1 = CHR ''h''" by simp
  have d: "DecodeLastRune (take 1 ''@http://a.com'') = (0x40, 1)"
    by (simp add: DecodeLastRune_def)
  have l: "\<not> IsLetter ascii_lib 0x40" "\<not> IsDigit ascii_lib 0x40"
    by (simp_all add: ascii_lib_simps)
  have "link ascii_lib ''http://a.com'' = Inr (''http://a.com'', 12)" by code_simp
  then have k: "link ascii_lib (drop 1 ''@http://a.com'') = Inr (''http://a.com'', 12)" by simp
  from P n d l k show ?thesis by (intro conjI)
qed

section \<open>Serialization round trip\<close>

lemma ToValidUTF8_valid: "ValidString s \<Longrightarrow> ToValidUTF8 s = s"
proof (induction s rule: length_induct)
  case (1 s)
  show ?case
  proof (cases "s = []")
    case True
    then show ?thesis by (simp add: ToValidUTF8.simps)
  next
    case False
    obtain r n where d: "DecodeRuneInString s = (r, n)" by (cases "DecodeRuneInString s")
    from DecodeRuneInString_size [OF False] d have n: "0 < n" "n \<le> length s" by simp_all
    from "1.prems" False d have v: "\<not> (r = RuneError \<and> n = 1)" "ValidString (drop n s)"
      by (auto simp: ValidString.simps [of s] split: if_splits)
    have "length (drop n s) < length s" using n False by simp
    with 1 v(2) have "ToValidUTF8 (drop n s) = drop n s" by blast
    then show ?thesis using False d v(1) by (auto simp: ToValidUTF8.simps [of s])
  qed
qed

lemma those_map_Some: "those (map Some xs) = Some xs"
  by (induction xs) simp_all

lemma unmarshal_strings_valid:
  "list_all ValidString xs \<Longrightarrow> those (map unmarshal_string (map marshal_string xs)) = Some xs"
  by (induction xs) (simp_all add: marshal_string_def ToValidUTF8_valid)

lemma unmarshal_Link_valid:
  "ValidString (URL l) \<Longrightarrow> ValidString (Title l) \<Longrightarrow> unmarshal_Link (marshal_Link l) = Some l"
  by (simp add: marshal_Link_def field_def marshal_string_def ToValidUTF8_valid)

lemma unmarshal_Links_valid:
  "list_all (\<lambda>l. ValidString (URL l) \<and> ValidString (Title l)) ls \<Longrightarrow>
   those (map unmarshal_Link (map marshal_Link ls)) = Some ls"
  by (induction ls) (simp_all add: unmarshal_Link_valid)

lemma Unmarshal_Marshal:
  assumes "valid_MsgInfo mi"
  shows "Unmarshal (Marshal mi) = Some mi"
proof -
  from assms have v: "list_all ValidString (Mentions mi)" "list_all ValidString (Emotions mi)"
    "list_all (\<lambda>l. ValidString (URL l) \<and> ValidString (Title l)) (Links mi)"
    by (simp_all add: valid_MsgInfo_def)
  have m: "those (map unmarshal_string (map marshal_string (Mentions mi))) = Some (Mentions mi)"
    by (rule unmarshal_strings_valid [OF v(1)])
  have e: "those (map unmarshal_string (map marshal_string (Emotions mi))) = Some (Emotions mi)"
    by (rule unmarshal_strings_valid [OF v(2)])
  have l: "those (map unmarshal_Link (map marshal_Link (Links mi))) = Some (Links mi)"
    by (rule unmarshal_Links_valid [OF v(3)])
  show ?thesis
    by (cases "Mentions mi = []"; cases "Emotions mi = []"; cases "Links mi = []")
      (simp_all add: Marshal_def field_def m e l del: map_map)
qed




lemma ValidString_ascii: "list_all (\<lambda>c. byte_val c < 0x80) s \<Longrightarrow> ValidString s"
proof (induction s)
  case Nil
  then show ?case by (simp add: ValidString.simps)
next
  case (Cons c cs)
  then have "DecodeRuneInString (c # cs) = (byte_val c, 1)" by (simp add: decode_ascii)
  moreover have "byte_val c \<noteq> RuneError" using Cons.prems by (simp add: RuneError_def)
  ultimately show ?case using Cons by (simp add: ValidString.simps [of "c # cs"])
qed

lemma ToValidUTF8_FF: "ToValidUTF8 [CHR 0xFF] = [CHR 0xEF, CHR 0xBF, CHR 0xBD]"
proof -
  have "DecodeRuneInString [CHR 0xFF] = (RuneError, 1)"
    by (simp add: DecodeRuneInString_def)
  then show ?thesis
    by (simp add: ToValidUTF8.simps [of "[CHR 0xFF]"] ToValidUTF8.simps [of "[]"] replacement_def)
qed


lemma urlsToLinks_short:
  assumes "length us \<le> 1"
  shows "urlsToLinks p sched us = urlsToLinks p sched' us"
proof (cases us)
  case Nil
  then show ?thesis by (simp add: urlsToLinks_def)
next
  case (Cons u vs)
  with assms have "vs = []" by simp
  with Cons show ?thesis by (simp add: urlsToLinks_def)
qed

lemma urlsToLinks_length: "length (urlsToLinks p sched us) = length us"
proof -
  have "size (mset (urlsToLinks p sched us)) = size (mset (map (fetchLink p) us))"
    by (simp only: urlsToLinks_mset)
  then show ?thesis by simp
qed

lemma Parse_sched:
  assumes "Parse lib p sched msg = Inr mi" and "length (Links mi) \<le> 1"
  shows "Parse lib p sched' msg = Inr mi"
proof (cases "Parse_loop lib msg 0 no_found")
  case (Inl err)
  with assms(1) show ?thesis by (simp add: Parse_def)
next
  case (Inr a)
  with assms(1) have mi: "mi = \<lparr>Mentions = mentions a, Emotions = emotions a,
                   Links = urlsToLinks p sched (urls a)\<rparr>"
    by (simp add: Parse_def)
  then have "Links mi = urlsToLinks p sched (urls a)" by simp
  with assms(2) have "length (urls a) \<le> 1" by (simp only: urlsToLinks_length)
  from urlsToLinks_short [OF this, of p sched sched'] show ?thesis
    by (simp add: Parse_def Inr mi)
qed

lemma Marshal_fields:
  "\<exists>fields. Marshal mi = JObject fields
     \<and> (map_of fields ''mentions'' = None \<longleftrightarrow> Mentions mi = [])
     \<and> (map_of fields ''emotions'' = None \<longleftrightarrow> Emotions mi = [])
     \<and> (map_of fields ''links'' = None \<longleftrightarrow> Links mi = [])
     \<and> JNull \<notin> snd ` set fields \<and> JArray [] \<notin> snd ` set fields"
  by (cases "Mentions mi = []"; cases "Emotions mi = []"; cases "Links mi = []")
    (simp_all add: Marshal_def)

lemma Parse_one_link:
  assumes "link lib msg = Inr (msg, length msg)" and "msg \<noteq> []"
    and "msg ! 0 = CHR ''h'' \<or> msg ! 0 = CHR ''H''"
  shows "Parse lib p sched msg = Inr \<lparr>Mentions = [], Emotions = [], Links = [fetchLink p msg]\<rparr>"
proof -
  have l: "0 < length msg" using assms(2) by simp
  have d: "link lib (drop 0 msg) = Inr (msg, length msg)" using assms(1) by simp
  have "step lib msg 0 no_found = Inr (0 + length msg, no_found\<lparr>urls := urls no_found @ [msg]\<rparr>)"
    by (rule step_link_taken [OF l assms(3) _ d assms(2)]) simp
  from Parse_loop_step [OF l this]
  have "Parse_loop lib msg 0 no_found = Parse_loop lib msg (length msg) (no_found\<lparr>urls := [msg]\<rparr>)"
    by simp
  also have "\<dots> = Inr (no_found\<lparr>urls := [msg]\<rparr>)" by (rule Parse_loop_end) simp
  finally show ?thesis by (simp add: Parse_def urlsToLinks_def)
qed

text \<open>
  C9, as amended. When every string of the parse result is valid UTF-8, the serialized
  form is the encoding of that result and decoding it gives the result back, all fields
  and orders preserved; with at most one link the result does not depend on the
  scheduler, so a second call of \<open>Parse\<close> returns the same value. In the serialized form
  of any result each of the three keys is absent exactly when its list is empty, and no
  value is \<open>null\<close> or an empty array.
\<close>

theorem ParseJSON_roundtrip_valid_utf8:
  "(Parse lib p sched msg = Inr mi \<and> valid_MsgInfo mi
      \<longrightarrow> ParseJSON lib p sched msg = Inr (Marshal mi) \<and> Unmarshal (Marshal mi) = Some mi)
 \<and> (Parse lib p sched msg = Inr mi \<and> length (Links mi) \<le> 1
      \<longrightarrow> Parse lib p sched' msg = Inr mi)
 \<and> (\<exists>fields. Marshal mi = JObject fields
      \<and> (map_of fields ''mentions'' = None \<longleftrightarrow> Mentions mi = [])
      \<and> (map_of fields ''emotions'' = None \<longleftrightarrow> Emotions mi = [])
      \<and> (map_of fields ''links'' = None \<longleftrightarrow> Links mi = [])
      \<and> JNull \<notin> snd ` set fields \<and> JArray [] \<notin> snd ` set fields)"
proof (intro conjI impI)
  assume h: "Parse lib p sched msg = Inr mi \<and> valid_MsgInfo mi"
  then show "ParseJSON lib p sched msg = Inr (Marshal mi)" by (simp add: ParseJSON_def)
  from h have "valid_MsgInfo mi" by (rule conjunct2)
  then show "Unmarshal (Marshal mi) = Some mi" by (rule Unmarshal_Marshal)
next
  assume "Parse lib p sched msg = Inr mi \<and> length (Links mi) \<le> 1"
  then show "Parse lib p sched' msg = Inr mi"
    using Parse_sched [of lib p sched msg mi sched'] by (elim conjE)
next
  show "\<exists>fields. Marshal mi = JObject fields
      \<and> (map_of fields ''mentions'' = None \<longleftrightarrow> Mentions mi = [])
      \<and> (map_of fields ''emotions'' = None \<longleftrightarrow> Emotions mi = [])
      \<and> (map_of fields ''links'' = None \<longleftrightarrow> Links mi = [])
      \<and> JNull \<notin> snd ` set fields \<and> JArray [] \<notin> snd ` set fields"
    by (rule Marshal_fields)
qed

theorem ParseJSON_roundtrip_valid_utf8_witness:
  "Parse ascii_lib (fakeHTTPGetter [(''http://a.b'', [StartTagToken ''title'', TextToken ''T''])]) []
      ''http://a.b''
     = Inr \<lparr>Mentions = [], Emotions = [], Links = [\<lparr>URL = ''http://a.b'', Title = ''T''\<rparr>]\<rparr>
 \<and> valid_MsgInfo \<lparr>Mentions = [], Emotions = [], Links = [\<lparr>URL = ''http://a.b'', Title = ''T''\<rparr>]\<rparr>
 \<and> ParseJSON ascii_lib (fakeHTTPGetter [(''http://a.b'', [StartTagToken ''title'', TextToken ''T''])]) []
      ''http://a.b''
     = Inr (JObject [(''links'', JArray [JObject [(''url'', JString ''http://a.b''),
          (''title'', JString ''T'')]])])
 \<and> Unmarshal (JObject [(''links'', JArray [JObject [(''url'', JString ''http://a.b''),
          (''title'', JString ''T'')]])])
     = Some \<lparr>Mentions = [], Emotions = [], Links = [\<lparr>URL = ''http://a.b'', Title = ''T''\<rparr>]\<rparr>
 \<and> Parse ascii_lib (fakeHTTPGetter [(''http://a.b'', [StartTagToken ''title'', TextToken ''T''])]) [7]
      ''http://a.b''
     = Inr \<lparr>Mentions = [], Emotions = [], Links = [\<lparr>URL = ''http://a.b'', Title = ''T''\<rparr>]\<rparr>"
proof -
  let ?p = "fakeHTTPGetter [(''http://a.b'', [StartTagToken ''title'', TextToken ''T''])]"
  let ?mi = "\<lparr>Mentions = [], Emotions = [], Links = [\<lparr>URL = ''http://a.b'', Title = ''T''\<rparr>]\<rparr>"
  let ?js = "JObject [(''links'', JArray [JObject [(''url'', JString ''http://a.b''),
          (''title'', JString ''T'')]])]"
  have lk: "link ascii_lib ''http://a.b'' = Inr (''http://a.b'', length ''http://a.b'')" by code_simp
  have fl: "fetchLink ?p ''http://a.b'' = \<lparr>URL = ''http://a.b'', Title = ''T''\<rparr>"
    by (simp add: fetchLink_def pagetTitle_def fakeHTTPGetter_def)
  have P: "Parse ascii_lib ?p [] ''http://a.b'' = Inr ?mi"
    using Parse_one_link [OF lk, of ?p "[]"] by (simp add: fl)
  have v1: "ValidString ''http://a.b''" by (rule ValidString_ascii) simp
  have v2: "ValidString ''T''" by (rule ValidString_ascii) simp
  have V: "valid_MsgInfo ?mi" by (simp add: valid_MsgInfo_def v1 v2)
  have u: "ToValidUTF8 ''http://a.b'' = ''http://a.b''" by (rule ToValidUTF8_valid [OF v1])
  have t: "ToValidUTF8 ''T'' = ''T''" by (rule ToValidUTF8_valid [OF v2])
  have M: "Marshal ?mi = ?js"
    by (simp add: Marshal_def marshal_Link_def marshal_string_def u t)
  note T = ParseJSON_roundtrip_valid_utf8 [of ascii_lib ?p "[]" "''http://a.b''" ?mi "[7]"]
  have PV: "Parse ascii_lib ?p [] ''http://a.b'' = Inr ?mi \<and> valid_MsgInfo ?mi"
    using P V by (rule conjI)
  have R: "ParseJSON ascii_lib ?p [] ''http://a.b'' = Inr (Marshal ?mi)
      \<and> Unmarshal (Marshal ?mi) = Some ?mi"
    by (rule mp [OF conjunct1 [OF T] PV])
  have J: "ParseJSON ascii_lib ?p [] ''http://a.b'' = Inr ?js"
    using conjunct1 [OF R] unfolding M .
  have U: "Unmarshal ?js = Some ?mi"
    using conjunct2 [OF R] unfolding M .
  have "length (Links ?mi) \<le> 1" by simp
  with P have PL: "Parse ascii_lib ?p [] ''http://a.b'' = Inr ?mi \<and> length (Links ?mi) \<le> 1"
    by (rule conjI)
  have S: "Parse ascii_lib ?p [7] ''http://a.b'' = Inr ?mi"
    by (rule mp [OF conjunct1 [OF conjunct2 [OF T]] PL])
  from P V J U S show ?thesis by (intro conjI)
qed

text \<open>
  C9 as stated fails on a message with one link: when the page's title is the single
  byte FF, the result holds that title, the serialized form holds U+FFFD in its place,
  and decoding gives a title of three bytes.
\<close>

theorem roundtrip_invalid_title_counterexample:
  "Parse ascii_lib (fakeHTTPGetter [(''http://a.b'', [StartTagToken ''title'', TextToken [CHR 0xFF]])]) []
      ''http://a.b''
     = Inr \<lparr>Mentions = [], Emotions = [], Links = [\<lparr>URL = ''http://a.b'', Title = [CHR 0xFF]\<rparr>]\<rparr>
 \<and> ParseJSON ascii_lib (fakeHTTPGetter [(''http://a.b'', [StartTagToken ''title'', TextToken [CHR 0xFF]])]) []
      ''http://a.b''
     = Inr (JObject [(''links'', JArray [JObject [(''url'', JString ''http://a.b''),
          (''title'', JString [CHR 0xEF, CHR 0xBF, CHR 0xBD])]])])
 \<and> Unmarshal (JObject [(''links'', JArray [JObject [(''url'', JString ''http://a.b''),
          (''title'', JString [CHR 0xEF, CHR 0xBF, CHR 0xBD])]])])
     = Some \<lparr>Mentions = [], Emotions = [],
             Links = [\<lparr>URL = ''http://a.b'', Title = [CHR 0xEF, CHR 0xBF, CHR 0xBD]\<rparr>]\<rparr>
 \<and> Unmarshal (Marshal \<lparr>Mentions = [], Emotions = [],
        Links = [\<lparr>URL = ''http://a.b'', Title = [CHR 0xFF]\<rparr>]\<rparr>)
     \<noteq> Some \<lparr>Mentions = [], Emotions = [], Links = [\<lparr>URL = ''http://a.b'', Title = [CHR 0xFF]\<rparr>]\<rparr>"
proof -
  let ?p = "fakeHTTPGetter [(''http://a.b'', [StartTagToken ''title'', TextToken [CHR 0xFF]])]"
  let ?mi = "\<lparr>Mentions = [], Emotions = [], Links = [\<lparr>URL = ''http://a.b'', Title = [CHR 0xFF]\<rparr>]\<rparr>"
  let ?js = "JObject [(''links'', JArray [JObject [(''url'', JString ''http://a.b''),
          (''title'', JString [CHR 0xEF, CHR 0xBF, CHR 0xBD])]])]"
  have lk: "link ascii_lib ''http://a.b'' = Inr (''http://a.b'', length ''http://a.b'')" by code_simp
  have fl: "fetchLink ?p ''http://a.b'' = \<lparr>URL = ''http://a.b'', Title = [CHR 0xFF]\<rparr>"
    by (simp add: fetchLink_def pagetTitle_def fakeHTTPGetter_def)
  have P: "Parse ascii_lib ?p [] ''http://a.b'' = Inr ?mi"
    using Parse_one_link [OF lk, of ?p "[]"] by (simp add: fl)
  have "ValidString ''http://a.b''" by (rule ValidString_ascii) simp
  then have u: "ToValidUTF8 ''http://a.b'' = ''http://a.b''" by (rule ToValidUTF8_valid)
  have M: "Marshal ?mi = ?js"
    by (simp add: Marshal_def marshal_Link_def marshal_string_def u ToValidUTF8_FF)
  have J: "ParseJSON ascii_lib ?p [] ''http://a.b'' = Inr ?js"
    by (simp add: ParseJSON_def P M)
  have U: "Unmarshal ?js = Some \<lparr>Mentions = [], Emotions = [],
             Links = [\<lparr>URL = ''http://a.b'', Title = [CHR 0xEF, CHR 0xBF, CHR 0xBD]\<rparr>]\<rparr>"
    by (simp add: field_def)
  have N: "Unmarshal (Marshal ?mi) \<noteq> Some ?mi" unfolding M U by simp
  from P J U N show ?thesis by (intro conjI)
qed


end
